theory Spec2Isabelle
  imports Main "HOL-Library.Word" "HOL-Library.Signed_Division"
begin

unbundle bit_operations_syntax

section \<open>Data model\<close>

text \<open>
  A node pointer of the Go code (\<^verbatim>\<open>*node[K, V]\<close>) is an address; \<^verbatim>\<open>nil\<close> is \<open>None\<close>.
  The nodes live in a store that maps every address to the node it holds, so that the
  intrusive links \<^verbatim>\<open>prev\<close>/\<^verbatim>\<open>next\<close>, the key-to-node map and the 2Q index all
  share the same objects, as they do in the source.
\<close>

type_synonym addr = nat

datatype EvictReason = EvictPolicy | EvictTTL | EvictCapacity

text \<open>The calls a shard makes on its \<^verbatim>\<open>Metrics\<close> sink, in the order it makes them.\<close>

datatype event = Hit | Miss | Evict EvictReason | Size int int

record ('k, 'v) node =
  key :: 'k
  val :: 'v
  prev :: "addr option"
  "next" :: "addr option"
  exp :: int
  cost :: int

text \<open>
  The 2Q policy (\<^verbatim>\<open>policy/twoq/twoq.go\<close>). A \<^verbatim>\<open>container/list\<close> is the list of
  the values it holds, front first; the element handles that \<^verbatim>\<open>inIdx\<close> and
  \<^verbatim>\<open>ghostIdx\<close> store are identified with the values they hold, so each index is the
  set of its keys and \<^verbatim>\<open>list.Remove(el)\<close> removes the value of \<^verbatim>\<open>el\<close>.
\<close>

record 'k twoQ =
  capIn :: int
  capGhost :: int
  inList :: "addr list"
  inIdx :: "addr set"
  ghostList :: "'k list"
  ghostIdx :: "'k set"

text \<open>The two implementations of \<^verbatim>\<open>policy.ShardPolicy\<close> in the repository.\<close>

datatype 'k ShardPolicy = LRU | TwoQ "'k twoQ"

text \<open>The policy factories (\<^verbatim>\<open>lru.New()\<close>, \<^verbatim>\<open>twoq.New(capIn, capGhost)\<close>).\<close>

datatype Policy = PolicyLRU | PolicyTwoQ int int

text \<open>
  A shard (\<^verbatim>\<open>cache/shard.go\<close>). \<open>heap\<close> is the node store and \<open>fresh\<close> the next
  unused address; \<open>metrics\<close> records the calls on \<^verbatim>\<open>opt.Metrics\<close> and \<open>callbacks\<close>
  the calls of \<^verbatim>\<open>opt.OnEvict\<close> (made only when \<open>onEvict\<close> holds, that is when the
  option is not nil). \<open>len\<close> and \<open>cost\<close> are mathematical integers: a shard keeps at most
  \<open>cap + 1\<close> nodes of cost below \<open>2 ^ 31\<close> each, far from the 64-bit range.
\<close>

record ('k, 'v) shard =
  m :: "'k \<rightharpoonup> addr"
  head :: "addr option"
  tail :: "addr option"
  len :: int
  cost :: int
  cap :: int
  maxCost :: int
  pol :: "'k ShardPolicy"
  onEvict :: bool
  hits :: int
  misses :: int
  evicts :: nat
  heap :: "addr \<Rightarrow> ('k, 'v) node"
  fresh :: addr
  metrics :: "event list"
  callbacks :: "('k \<times> 'v \<times> EvictReason) list"

section \<open>The intrusive list\<close>

definition set_prev :: "addr \<Rightarrow> addr option \<Rightarrow> ('k, 'v) shard \<Rightarrow> ('k, 'v) shard" where
  "set_prev a p s = s\<lparr>heap := (heap s)(a := (heap s a)\<lparr>prev := p\<rparr>)\<rparr>"

definition set_next :: "addr \<Rightarrow> addr option \<Rightarrow> ('k, 'v) shard \<Rightarrow> ('k, 'v) shard" where
  "set_next a p s = s\<lparr>heap := (heap s)(a := (heap s a)\<lparr>next := p\<rparr>)\<rparr>"

text \<open>\<^verbatim>\<open>insertFront\<close>: one binding per statement of the source.\<close>

definition insertFront :: "addr \<Rightarrow> ('k, 'v) shard \<Rightarrow> ('k, 'v) shard" where
  "insertFront n s =
    (let s1 = set_prev n None s;
         s2 = set_next n (head s1) s1;
         s3 = (case head s2 of Some h \<Rightarrow> set_prev h (Some n) s2 | None \<Rightarrow> s2);
         s4 = s3\<lparr>head := Some n\<rparr>;
         s5 = (if tail s4 = None then s4\<lparr>tail := Some n\<rparr> else s4);
         s6 = s5\<lparr>len := len s5 + 1\<rparr>
     in s6\<lparr>cost := cost s6 + node.cost (heap s6 n)\<rparr>)"

definition moveToFront :: "addr \<Rightarrow> ('k, 'v) shard \<Rightarrow> ('k, 'v) shard" where
  "moveToFront n s =
    (if head s = Some n then s
     else
       let s1 = (case prev (heap s n) of Some p \<Rightarrow> set_next p (next (heap s n)) s | None \<Rightarrow> s);
           s2 = (case next (heap s1 n) of Some q \<Rightarrow> set_prev q (prev (heap s1 n)) s1 | None \<Rightarrow> s1);
           s3 = (if tail s2 = Some n then s2\<lparr>tail := prev (heap s2 n)\<rparr> else s2);
           s4 = set_prev n None s3;
           s5 = set_next n (head s4) s4;
           s6 = (case head s5 of Some h \<Rightarrow> set_prev h (Some n) s5 | None \<Rightarrow> s5);
           s7 = s6\<lparr>head := Some n\<rparr>
       in (if tail s7 = None then s7\<lparr>tail := Some n\<rparr> else s7))"

definition removeNode :: "addr \<Rightarrow> ('k, 'v) shard \<Rightarrow> ('k, 'v) shard" where
  "removeNode n s =
    (let s1 = (case prev (heap s n) of Some p \<Rightarrow> set_next p (next (heap s n)) s | None \<Rightarrow> s);
         s2 = (case next (heap s1 n) of Some q \<Rightarrow> set_prev q (prev (heap s1 n)) s1 | None \<Rightarrow> s1);
         s3 = (if head s2 = Some n then s2\<lparr>head := next (heap s2 n)\<rparr> else s2);
         s4 = (if tail s3 = Some n then s3\<lparr>tail := prev (heap s3 n)\<rparr> else s3);
         s5 = set_next n None (set_prev n None s4);
         s6 = s5\<lparr>len := len s5 - 1\<rparr>;
         s7 = s6\<lparr>cost := cost s6 - node.cost (heap s6 n)\<rparr>
     in (if cost s7 < 0 then s7\<lparr>cost := 0\<rparr> else s7))"

definition backNode :: "('k, 'v) shard \<Rightarrow> addr option" where
  "backNode s = tail s"

section \<open>The policies\<close>

subsection \<open>LRU\<close>

definition lru_OnAdd :: "addr \<Rightarrow> ('k, 'v) shard \<Rightarrow> addr option \<times> ('k, 'v) shard" where
  "lru_OnAdd n s = (None, insertFront n s)"

definition lru_OnGet :: "addr \<Rightarrow> ('k, 'v) shard \<Rightarrow> ('k, 'v) shard" where
  "lru_OnGet n s = moveToFront n s"

definition lru_OnUpdate :: "addr \<Rightarrow> ('k, 'v) shard \<Rightarrow> ('k, 'v) shard" where
  "lru_OnUpdate n s = moveToFront n s"

definition lru_OnRemove :: "addr \<Rightarrow> ('k, 'v) shard \<Rightarrow> ('k, 'v) shard" where
  "lru_OnRemove n s = s"

subsection \<open>2Q\<close>

text \<open>\<^verbatim>\<open>twoq.New\<close> raises both capacities to at least 1.\<close>

definition twoq_New :: "int \<Rightarrow> int \<Rightarrow> 'k twoQ" where
  "twoq_New ci cg =
     \<lparr>capIn = (if ci < 1 then 1 else ci), capGhost = (if cg < 1 then 1 else cg),
      inList = [], inIdx = {}, ghostList = [], ghostIdx = {}\<rparr>"

text \<open>
  The callbacks take the policy state and the shard (whose list they change through
  the hooks \<^verbatim>\<open>PushFront\<close> = \<open>insertFront\<close> and \<^verbatim>\<open>MoveToFront\<close> = \<open>moveToFront\<close>) and
  return both.
\<close>

definition twoq_OnAdd ::
  "'k twoQ \<Rightarrow> addr \<Rightarrow> ('k, 'v) shard \<Rightarrow> addr option \<times> 'k twoQ \<times> ('k, 'v) shard" where
  "twoq_OnAdd q n s =
    (let k = key (heap s n) in
     if k \<in> ghostIdx q then
       (None,
        q\<lparr>ghostList := remove1 k (ghostList q), ghostIdx := ghostIdx q - {k}\<rparr>,
        insertFront n s)
     else
       let s1 = insertFront n s;
           q1 = q\<lparr>inList := n # inList q, inIdx := insert n (inIdx q)\<rparr>
       in if int (length (inList q1)) > capIn q1
          then (case inList q1 of [] \<Rightarrow> (None, q1, s1) | _ # _ \<Rightarrow> (Some (last (inList q1)), q1, s1))
          else (None, q1, s1))"

definition twoq_OnGet :: "'k twoQ \<Rightarrow> addr \<Rightarrow> ('k, 'v) shard \<Rightarrow> 'k twoQ \<times> ('k, 'v) shard" where
  "twoq_OnGet q n s =
    (let q1 = (if n \<in> inIdx q
               then q\<lparr>inList := remove1 n (inList q), inIdx := inIdx q - {n}\<rparr> else q)
     in (q1, moveToFront n s))"

definition twoq_OnUpdate :: "'k twoQ \<Rightarrow> addr \<Rightarrow> ('k, 'v) shard \<Rightarrow> 'k twoQ \<times> ('k, 'v) shard" where
  "twoq_OnUpdate q n s = twoq_OnGet q n s"

text \<open>The loop of \<^verbatim>\<open>OnRemove\<close> that drops the oldest ghosts above \<^verbatim>\<open>capGhost\<close>.\<close>

function trimGhosts :: "'k twoQ \<Rightarrow> 'k twoQ" where
  "trimGhosts q =
    (if int (length (ghostList q)) > capGhost q
     then (case ghostList q of
             [] \<Rightarrow> q
           | _ # _ \<Rightarrow>
               trimGhosts (q\<lparr>ghostIdx := ghostIdx q - {last (ghostList q)},
                             ghostList := butlast (ghostList q)\<rparr>))
     else q)"
  by pat_completeness auto
termination
  by (relation "measure (\<lambda>q. length (ghostList q))") auto

declare trimGhosts.simps [simp del]

definition twoq_OnRemove :: "'k twoQ \<Rightarrow> addr \<Rightarrow> ('k, 'v) shard \<Rightarrow> 'k twoQ" where
  "twoq_OnRemove q n s =
    (if n \<in> inIdx q then
       let q1 = q\<lparr>inList := remove1 n (inList q), inIdx := inIdx q - {n}\<rparr>;
           k = key (heap s n);
           q2 = (if k \<in> ghostIdx q1 then q1\<lparr>ghostList := remove1 k (ghostList q1)\<rparr> else q1);
           q3 = q2\<lparr>ghostList := k # ghostList q2, ghostIdx := insert k (ghostIdx q2)\<rparr>
       in trimGhosts q3
     else q)"

subsection \<open>Dispatch on the shard's policy\<close>

definition Policy_New :: "Policy \<Rightarrow> 'k ShardPolicy" where
  "Policy_New p = (case p of PolicyLRU \<Rightarrow> LRU | PolicyTwoQ ci cg \<Rightarrow> TwoQ (twoq_New ci cg))"

definition pol_OnAdd :: "addr \<Rightarrow> ('k, 'v) shard \<Rightarrow> addr option \<times> ('k, 'v) shard" where
  "pol_OnAdd n s =
    (case pol s of
       LRU \<Rightarrow> lru_OnAdd n s
     | TwoQ q \<Rightarrow> (case twoq_OnAdd q n s of (ev, q', s') \<Rightarrow> (ev, s'\<lparr>pol := TwoQ q'\<rparr>)))"

definition pol_OnGet :: "addr \<Rightarrow> ('k, 'v) shard \<Rightarrow> ('k, 'v) shard" where
  "pol_OnGet n s =
    (case pol s of
       LRU \<Rightarrow> lru_OnGet n s
     | TwoQ q \<Rightarrow> (case twoq_OnGet q n s of (q', s') \<Rightarrow> s'\<lparr>pol := TwoQ q'\<rparr>))"

definition pol_OnUpdate :: "addr \<Rightarrow> ('k, 'v) shard \<Rightarrow> ('k, 'v) shard" where
  "pol_OnUpdate n s =
    (case pol s of
       LRU \<Rightarrow> lru_OnUpdate n s
     | TwoQ q \<Rightarrow> (case twoq_OnUpdate q n s of (q', s') \<Rightarrow> s'\<lparr>pol := TwoQ q'\<rparr>))"

definition pol_OnRemove :: "addr \<Rightarrow> ('k, 'v) shard \<Rightarrow> ('k, 'v) shard" where
  "pol_OnRemove n s =
    (case pol s of
       LRU \<Rightarrow> lru_OnRemove n s
     | TwoQ q \<Rightarrow> s\<lparr>pol := TwoQ (twoq_OnRemove q n s)\<rparr>)"

section \<open>The shard\<close>

definition evictNode :: "addr \<Rightarrow> EvictReason \<Rightarrow> ('k, 'v) shard \<Rightarrow> ('k, 'v) shard" where
  "evictNode n reason s =
    (let s1 = pol_OnRemove n s;
         s2 = removeNode n s1;
         s3 = s2\<lparr>m := (m s2)(key (heap s2 n) := None)\<rparr>;
         s4 = s3\<lparr>evicts := evicts s3 + 1\<rparr>;
         s5 = s4\<lparr>metrics := metrics s4 @ [Evict reason]\<rparr>
     in (if onEvict s5
         then s5\<lparr>callbacks := callbacks s5 @ [(key (heap s5 n), val (heap s5 n), reason)]\<rparr>
         else s5))"

lemma len_removeNode: "len (removeNode n s) = len s - 1"
  by (simp add: removeNode_def Let_def set_prev_def set_next_def split: option.splits)

lemma cap_removeNode: "cap (removeNode n s) = cap s"
  by (simp add: removeNode_def Let_def set_prev_def set_next_def split: option.splits)

lemma len_pol_OnRemove: "len (pol_OnRemove n s) = len s"
  by (simp add: pol_OnRemove_def lru_OnRemove_def split: ShardPolicy.splits)

lemma cap_pol_OnRemove: "cap (pol_OnRemove n s) = cap s"
  by (simp add: pol_OnRemove_def lru_OnRemove_def split: ShardPolicy.splits)

lemma len_evictNode: "len (evictNode n r s) = len s - 1"
  by (simp add: evictNode_def Let_def len_removeNode len_pol_OnRemove)

lemma cap_evictNode: "cap (evictNode n r s) = cap s"
  by (simp add: evictNode_def Let_def cap_removeNode cap_pol_OnRemove)

text \<open>
  The count loop of \<^verbatim>\<open>enforceLimitsLocked\<close>. Every round decreases \<open>len\<close>, so the loop
  ends from any state.
\<close>

function enforceCount :: "('k, 'v) shard \<Rightarrow> ('k, 'v) shard" where
  "enforceCount s =
    (if len s > cap s
     then (case backNode s of
             Some t \<Rightarrow> enforceCount (evictNode t EvictPolicy s)
           | None \<Rightarrow> s)
     else s)"
  by pat_completeness auto
termination
  by (relation "measure (\<lambda>s. nat (len s - cap s))")
     (auto simp: len_evictNode cap_evictNode)

declare enforceCount.simps [simp del]

text \<open>
  The cost loop. A node of cost 0 leaves \<open>cost\<close> unchanged, so the loop ends only because
  the list runs out: it is a partial function, \<open>None\<close> when it does not return.
\<close>

partial_function (option) enforceCost :: "('k, 'v) shard \<Rightarrow> ('k, 'v) shard option" where
  "enforceCost s =
    (if cost s > maxCost s
     then (case backNode s of
             Some t \<Rightarrow> enforceCost (evictNode t EvictCapacity s)
           | None \<Rightarrow> Some s)
     else Some s)"

definition enforceLimitsLocked :: "('k, 'v) shard \<Rightarrow> ('k, 'v) shard option" where
  "enforceLimitsLocked s =
    (let s1 = enforceCount s in
     case (if maxCost s1 > 0 then enforceCost s1 else Some s1) of
       None \<Rightarrow> None
     | Some s2 \<Rightarrow> Some (s2\<lparr>metrics := metrics s2 @ [Size (len s2) (cost s2)]\<rparr>))"

text \<open>Allocation of \<^verbatim>\<open>&node{key: k, val: v, exp: ttl, cost: cost}\<close> at the next unused address.\<close>

definition new_node :: "'k \<Rightarrow> 'v \<Rightarrow> int \<Rightarrow> int \<Rightarrow> ('k, 'v) shard \<Rightarrow> addr \<times> ('k, 'v) shard" where
  "new_node k v ttl c s =
    (fresh s,
     s\<lparr>heap := (heap s)(fresh s :=
          \<lparr>key = k, val = v, prev = None, next = None, exp = ttl, node.cost = c\<rparr>),
       fresh := Suc (fresh s)\<rparr>)"

text \<open>The path of \<^verbatim>\<open>Add\<close> and \<^verbatim>\<open>Set\<close> for a key that is not in the map.\<close>

definition add_new :: "'k \<Rightarrow> 'v \<Rightarrow> int \<Rightarrow> int \<Rightarrow> ('k, 'v) shard \<Rightarrow> ('k, 'v) shard option" where
  "add_new k v ttl c s =
    (case new_node k v ttl c s of (n, s1) \<Rightarrow>
       let s2 = s1\<lparr>m := (m s1)(k \<mapsto> n)\<rparr> in
       case pol_OnAdd n s2 of (ev, s3) \<Rightarrow>
         enforceLimitsLocked
           (case ev of Some e \<Rightarrow> evictNode e EvictPolicy s3 | None \<Rightarrow> s3))"

definition Add ::
  "'k \<Rightarrow> 'v \<Rightarrow> int \<Rightarrow> int \<Rightarrow> ('k, 'v) shard \<Rightarrow> (bool \<times> ('k, 'v) shard) option" where
  "Add k v ttl c s =
    (case m s k of
       Some n \<Rightarrow> Some (False, s)
     | None \<Rightarrow> map_option (Pair True) (add_new k v ttl c s))"

definition Set_shard ::
  "'k \<Rightarrow> 'v \<Rightarrow> int \<Rightarrow> int \<Rightarrow> ('k, 'v) shard \<Rightarrow> ('k, 'v) shard option" where
  "Set_shard k v ttl c s =
    (case m s k of
       Some n \<Rightarrow>
         let oldCost = node.cost (heap s n);
             s1 = s\<lparr>heap := (heap s)(n := (heap s n)\<lparr>val := v, exp := ttl, node.cost := c\<rparr>)\<rparr>;
             s2 = s1\<lparr>cost := cost s1 + c - oldCost\<rparr>
         in enforceLimitsLocked (pol_OnUpdate n s2)
     | None \<Rightarrow> add_new k v ttl c s)"

definition expiredLocked :: "int \<Rightarrow> addr \<Rightarrow> ('k, 'v) shard \<Rightarrow> bool" where
  "expiredLocked now n s = (if exp (heap s n) = 0 then False else now > exp (heap s n))"

text \<open>\<^verbatim>\<open>Get\<close>; \<open>now\<close> is what the clock reads during the call, \<open>None\<close> is \<^verbatim>\<open>(zero, false)\<close>.\<close>

definition Get :: "'k \<Rightarrow> int \<Rightarrow> ('k, 'v) shard \<Rightarrow> 'v option \<times> ('k, 'v) shard" where
  "Get k now s =
    (case m s k of
       None \<Rightarrow> (None, s\<lparr>misses := misses s + 1, metrics := metrics s @ [Miss]\<rparr>)
     | Some n \<Rightarrow>
         if expiredLocked now n s then
           (let s1 = evictNode n EvictTTL s
            in (None, s1\<lparr>misses := misses s1 + 1, metrics := metrics s1 @ [Miss]\<rparr>))
         else
           (let s1 = pol_OnGet n s
            in (Some (val (heap s1 n)), s1\<lparr>hits := hits s1 + 1, metrics := metrics s1 @ [Hit]\<rparr>)))"

definition Remove :: "'k \<Rightarrow> ('k, 'v) shard \<Rightarrow> bool \<times> ('k, 'v) shard" where
  "Remove k s =
    (case m s k of
       None \<Rightarrow> (False, s)
     | Some n \<Rightarrow>
         let s1 = pol_OnRemove n s;
             s2 = removeNode n s1
         in (True, s2\<lparr>m := (m s2)(k := None)\<rparr>))"

section \<open>The cache\<close>

text \<open>
  \<^verbatim>\<open>cache/options.go\<close> and \<^verbatim>\<open>cache/cache.go\<close>. Go's \<^verbatim>\<open>int\<close>, \<^verbatim>\<open>int64\<close> and
  \<^verbatim>\<open>time.Duration\<close> are 64-bit words read as two's complement (\<open>sint\<close>, \<open><s\<close>), so the
  arithmetic of \<^verbatim>\<open>New\<close>, \<^verbatim>\<open>newShard\<close> and \<^verbatim>\<open>deadline\<close> wraps as the code's does.
  An error value is \<^verbatim>\<open>ErrNoLoader\<close> or any other error \<open>Err e\<close>. A nil \<^verbatim>\<open>Policy\<close>,
  \<^verbatim>\<open>Cost\<close> or \<^verbatim>\<open>Loader\<close> is \<open>None\<close>; \<open>OnEvict\<close> says whether the callback is set. The
  loader is a function of the context and the key. The metrics sink and the clock are the
  environment: the sink's calls are recorded in each shard, the clock's readings are
  arguments of the operations.
\<close>

datatype 'e error = ErrNoLoader | Err 'e

record ('k, 'v, 'e) Options =
  Capacity :: "64 word"
  Shards :: "64 word"
  Policy :: "Policy option"
  DefaultTTL :: "64 word"
  Cost :: "('v \<Rightarrow> 64 word) option"
  MaxCost :: "64 word"
  Loader :: "('e error option \<Rightarrow> 'k \<Rightarrow> 'e error + 'v) option"
  OnEvict :: bool

text \<open>
  \<open>sf\<close> is the key set of the singleflight group's map of calls in flight. \<open>hash\<close> is
  \<^verbatim>\<open>util.Fnv64a\<close> at the key type.
\<close>

record ('k, 'v, 'e) cache =
  shards :: "('k, 'v) shard list"
  hash :: "'k \<Rightarrow> 64 word"
  closed :: bool
  opt :: "('k, 'v, 'e) Options"
  sf :: "'k set"

text \<open>\<^verbatim>\<open>util.NextPow2\<close> on \<^verbatim>\<open>uint64\<close>.\<close>

definition NextPow2 :: "64 word \<Rightarrow> 64 word" where
  "NextPow2 x =
    (if x \<le> 1 then 1
     else
       let x = x - 1;
           x = x OR drop_bit 1 x;
           x = x OR drop_bit 2 x;
           x = x OR drop_bit 4 x;
           x = x OR drop_bit 8 x;
           x = x OR drop_bit 16 x;
           x = x OR drop_bit 32 x;
           x = x + 1
       in if x = 0 then push_bit 63 1 else x)"

text \<open>
  Go's \<^verbatim>\<open>/\<close> on signed 64-bit integers: the quotient truncated towards zero. The
  divisors below are never 0.
\<close>

definition go_div :: "64 word \<Rightarrow> 64 word \<Rightarrow> 64 word" where
  "go_div a b = word_of_int (sint a sdiv sint b)"

text \<open>\<^verbatim>\<open>util.ReasonableShardCount\<close>; \<open>procs\<close> is \<^verbatim>\<open>runtime.GOMAXPROCS(0)\<close>.\<close>

definition ReasonableShardCount :: "64 word \<Rightarrow> 64 word" where
  "ReasonableShardCount procs =
    (let p = (if procs <s 1 then 1 else procs);
         n = NextPow2 (p * 2);
         n = (if n <s 1 then 1 else n)
     in if 256 <s n then 256 else n)"

text \<open>
  \<^verbatim>\<open>newShard\<close>. \<open>z\<close> is the zero value of \<^verbatim>\<open>node[K, V]\<close>, the content of memory that
  has not been allocated yet.
\<close>

definition newShard ::
  "('k, 'v) node \<Rightarrow> 64 word \<Rightarrow> 64 word \<Rightarrow> Policy \<Rightarrow> ('k, 'v, 'e) Options \<Rightarrow> ('k, 'v) shard" where
  "newShard z procs capacity p op =
    (let mc =
       (if 0 <s MaxCost op then
          let shards = (if Shards op \<le>s 0 then ReasonableShardCount procs else Shards op)
          in go_div (MaxCost op + shards - 1) shards
        else 0)
     in \<lparr>m = Map.empty, head = None, tail = None, len = 0, cost = 0,
         cap = sint capacity, maxCost = sint mc, pol = Policy_New p,
         onEvict = OnEvict op, hits = 0, misses = 0, evicts = 0,
         heap = (\<lambda>_. z), fresh = 0, metrics = [], callbacks = []\<rparr>)"

text \<open>
  \<^verbatim>\<open>New\<close> panics on a capacity that is not positive, and \<^verbatim>\<open>make\<close> panics on a
  negative length (running out of memory is not modelled).
\<close>

datatype panic = PanicCapacity | PanicMakeSlice

definition shardCount :: "64 word \<Rightarrow> ('k, 'v, 'e) Options \<Rightarrow> 64 word" where
  "shardCount procs op =
    (if Shards op \<le>s 0 then
       let auto = 2 * procs;
           sh = NextPow2 auto
       in (if sh <s 1 then 1 else sh)
     else NextPow2 (Shards op))"

definition New ::
  "('k, 'v) node \<Rightarrow> 64 word \<Rightarrow> ('k \<Rightarrow> 64 word) \<Rightarrow> ('k, 'v, 'e) Options
   \<Rightarrow> panic + ('k, 'v, 'e) cache" where
  "New z procs hashf op =
    (if Capacity op \<le>s 0 then Inl PanicCapacity
     else
       let p = (case Policy op of None \<Rightarrow> PolicyLRU | Some p \<Rightarrow> p);
           sh = shardCount procs op
       in if sh <s 0 then Inl PanicMakeSlice
          else
            let perShardCap = go_div (Capacity op + sh - 1) sh
            in Inr \<lparr>shards = replicate (unat sh) (newShard z procs perShardCap p op),
                    hash = hashf, closed = False, opt = op, sf = {}\<rparr>)"

text \<open>
  \<^verbatim>\<open>getShard\<close>: \<^verbatim>\<open>int(h) & (len(c.shards) - 1)\<close>. Indexing outside the slice panics; an
  operation that panics or does not return yields \<open>None\<close>.
\<close>

definition getShard :: "('k, 'v, 'e) cache \<Rightarrow> 'k \<Rightarrow> (nat \<times> ('k, 'v) shard) option" where
  "getShard c k =
    (let idx = sint (hash c k AND (word_of_nat (length (shards c)) - 1))
     in if 0 \<le> idx \<and> idx < int (length (shards c))
        then Some (nat idx, shards c ! nat idx) else None)"

definition deadline :: "('k, 'v, 'e) cache \<Rightarrow> 64 word \<Rightarrow> 64 word \<Rightarrow> 64 word" where
  "deadline c now ttl = (if ttl \<le>s 0 then 0 else now + ttl)"

definition defaultDeadline :: "('k, 'v, 'e) cache \<Rightarrow> 64 word \<Rightarrow> 64 word" where
  "defaultDeadline c now =
    (if DefaultTTL (opt c) \<le>s 0 then 0 else deadline c now (DefaultTTL (opt c)))"

definition costOf :: "('k, 'v, 'e) cache \<Rightarrow> 'v \<Rightarrow> 64 word" where
  "costOf c v =
    (case Cost (opt c) of
       None \<Rightarrow> 0
     | Some f \<Rightarrow>
         let iv = f v;
             iv = (if iv <s 0 then 0 else iv)
         in if 2147483647 <s iv then 2147483647 else iv)"

definition cache_Add ::
  "('k, 'v, 'e) cache \<Rightarrow> 64 word \<Rightarrow> 'k \<Rightarrow> 'v \<Rightarrow> (bool \<times> ('k, 'v, 'e) cache) option" where
  "cache_Add c now k v =
    (if closed c then Some (False, c)
     else case getShard c k of
       None \<Rightarrow> None
     | Some (i, s) \<Rightarrow>
         (case Add k v (sint (defaultDeadline c now)) (sint (costOf c v)) s of
            None \<Rightarrow> None
          | Some (r, s') \<Rightarrow> Some (r, c\<lparr>shards := (shards c)[i := s']\<rparr>)))"

definition cache_Set ::
  "('k, 'v, 'e) cache \<Rightarrow> 64 word \<Rightarrow> 'k \<Rightarrow> 'v \<Rightarrow> ('k, 'v, 'e) cache option" where
  "cache_Set c now k v =
    (if closed c then Some c
     else case getShard c k of
       None \<Rightarrow> None
     | Some (i, s) \<Rightarrow>
         (case Set_shard k v (sint (defaultDeadline c now)) (sint (costOf c v)) s of
            None \<Rightarrow> None
          | Some s' \<Rightarrow> Some (c\<lparr>shards := (shards c)[i := s']\<rparr>)))"

definition SetWithTTL ::
  "('k, 'v, 'e) cache \<Rightarrow> 64 word \<Rightarrow> 'k \<Rightarrow> 'v \<Rightarrow> 64 word \<Rightarrow> ('k, 'v, 'e) cache option" where
  "SetWithTTL c now k v ttl =
    (if closed c then Some c
     else case getShard c k of
       None \<Rightarrow> None
     | Some (i, s) \<Rightarrow>
         (case Set_shard k v (sint (deadline c now ttl)) (sint (costOf c v)) s of
            None \<Rightarrow> None
          | Some s' \<Rightarrow> Some (c\<lparr>shards := (shards c)[i := s']\<rparr>)))"

definition cache_Get ::
  "('k, 'v, 'e) cache \<Rightarrow> 64 word \<Rightarrow> 'k \<Rightarrow> ('v option \<times> ('k, 'v, 'e) cache) option" where
  "cache_Get c now k =
    (if closed c then Some (None, c)
     else case getShard c k of
       None \<Rightarrow> None
     | Some (i, s) \<Rightarrow>
         (case Get k (sint now) s of (r, s') \<Rightarrow> Some (r, c\<lparr>shards := (shards c)[i := s']\<rparr>)))"

definition cache_Remove ::
  "('k, 'v, 'e) cache \<Rightarrow> 'k \<Rightarrow> (bool \<times> ('k, 'v, 'e) cache) option" where
  "cache_Remove c k =
    (if closed c then Some (False, c)
     else case getShard c k of
       None \<Rightarrow> None
     | Some (i, s) \<Rightarrow>
         (case Remove k s of (r, s') \<Rightarrow> Some (r, c\<lparr>shards := (shards c)[i := s']\<rparr>)))"

definition cache_Len :: "('k, 'v, 'e) cache \<Rightarrow> int" where
  "cache_Len c = sum_list (map len (shards c))"

definition Close :: "('k, 'v, 'e) cache \<Rightarrow> ('k, 'v, 'e) cache" where
  "Close c = c\<lparr>closed := True\<rparr>"

text \<open>
  \<^verbatim>\<open>singleflight.Group.Do\<close> as one goroutine runs it. \<open>ctx\<close> is \<open>Some e\<close> when the context
  is done with error \<open>e\<close>. A caller that finds a call in flight waits for it: with no other
  goroutine to finish that call it returns only when its context is done. The leader adds
  the key, runs \<open>fn\<close> and removes the key.
\<close>

definition Do ::
  "'e error option \<Rightarrow> 'k \<Rightarrow>
   (('k, 'v, 'e) cache \<Rightarrow> (('e error + 'v) \<times> ('k, 'v, 'e) cache) option) \<Rightarrow>
   ('k, 'v, 'e) cache \<Rightarrow> (('e error + 'v) \<times> ('k, 'v, 'e) cache) option" where
  "Do ctx k fn c =
    (if k \<in> sf c then (case ctx of Some e \<Rightarrow> Some (Inl e, c) | None \<Rightarrow> None)
     else case fn (c\<lparr>sf := insert k (sf c)\<rparr>) of
       None \<Rightarrow> None
     | Some (r, c') \<Rightarrow> Some (r, c'\<lparr>sf := sf c' - {k}\<rparr>))"

text \<open>
  \<^verbatim>\<open>GetOrLoad\<close>; \<open>t1\<close>, \<open>t2\<close> and \<open>t3\<close> are the clock readings of the fast-path \<^verbatim>\<open>Get\<close>,
  of the second \<^verbatim>\<open>Get\<close> and of the \<^verbatim>\<open>Set\<close>.
\<close>

definition GetOrLoad ::
  "('k, 'v, 'e) cache \<Rightarrow> 'e error option \<Rightarrow> 64 word \<Rightarrow> 64 word \<Rightarrow> 64 word \<Rightarrow> 'k \<Rightarrow>
   (('e error + 'v) \<times> ('k, 'v, 'e) cache) option" where
  "GetOrLoad c ctx t1 t2 t3 k =
    (case cache_Get c t1 k of
       None \<Rightarrow> None
     | Some (Some v, c1) \<Rightarrow> Some (Inr v, c1)
     | Some (None, c1) \<Rightarrow>
         (case Loader (opt c1) of
            None \<Rightarrow> Some (Inl ErrNoLoader, c1)
          | Some load \<Rightarrow>
              Do ctx k
                (\<lambda>c2. case cache_Get c2 t2 k of
                         None \<Rightarrow> None
                       | Some (Some v, c3) \<Rightarrow> Some (Inr v, c3)
                       | Some (None, c3) \<Rightarrow>
                           (case load ctx k of
                              Inl e \<Rightarrow> Some (Inl e, c3)
                            | Inr v \<Rightarrow>
                                (case cache_Set c3 t3 k v of
                                   None \<Rightarrow> None
                                 | Some c4 \<Rightarrow> Some (Inr v, c4))))
                c1))"

text \<open>The public operations, to run sequences of them.\<close>

datatype ('k, 'v, 'e) op =
    OpAdd "64 word" 'k 'v
  | OpSet "64 word" 'k 'v
  | OpSetWithTTL "64 word" 'k 'v "64 word"
  | OpGet "64 word" 'k
  | OpRemove 'k
  | OpGetOrLoad "'e error option" "64 word" "64 word" "64 word" 'k
  | OpLen
  | OpClose

fun step :: "('k, 'v, 'e) op \<Rightarrow> ('k, 'v, 'e) cache \<Rightarrow> ('k, 'v, 'e) cache option" where
  "step (OpAdd now k v) c = map_option snd (cache_Add c now k v)"
| "step (OpSet now k v) c = cache_Set c now k v"
| "step (OpSetWithTTL now k v ttl) c = SetWithTTL c now k v ttl"
| "step (OpGet now k) c = map_option snd (cache_Get c now k)"
| "step (OpRemove k) c = map_option snd (cache_Remove c k)"
| "step (OpGetOrLoad ctx t1 t2 t3 k) c = map_option snd (GetOrLoad c ctx t1 t2 t3 k)"
| "step OpLen c = Some c"
| "step OpClose c = Some (Close c)"

fun run :: "('k, 'v, 'e) op list \<Rightarrow> ('k, 'v, 'e) cache \<Rightarrow> ('k, 'v, 'e) cache option" where
  "run [] c = Some c"
| "run (x # xs) c = (case step x c of None \<Rightarrow> None | Some c' \<Rightarrow> run xs c')"

section \<open>The list a shard holds\<close>

text \<open>
  The abstraction of the linked nodes: \<open>dll s xs\<close> says that \<open>xs\<close> is the chain of
  addresses from \<open>head s\<close> (MRU) to \<open>tail s\<close> (LRU), every \<^verbatim>\<open>prev\<close> link naming the
  node before and every \<^verbatim>\<open>next\<close> link the node after.
\<close>

fun bwd :: "(addr \<Rightarrow> ('k, 'v) node) \<Rightarrow> addr option \<Rightarrow> addr list \<Rightarrow> bool" where
  "bwd h p [] = True"
| "bwd h p (x # xs) = (prev (h x) = p \<and> bwd h (Some x) xs)"

fun fwd :: "(addr \<Rightarrow> ('k, 'v) node) \<Rightarrow> addr list \<Rightarrow> addr option \<Rightarrow> bool" where
  "fwd h [] q = True"
| "fwd h (x # xs) q = (next (h x) = (if xs = [] then q else Some (hd xs)) \<and> fwd h xs q)"

definition first_opt :: "'a list \<Rightarrow> 'a option" where
  "first_opt xs = (if xs = [] then None else Some (hd xs))"

definition last_opt :: "'a list \<Rightarrow> 'a option" where
  "last_opt xs = (if xs = [] then None else Some (last xs))"

definition dll :: "('k, 'v) shard \<Rightarrow> addr list \<Rightarrow> bool" where
  "dll s xs \<longleftrightarrow>
     distinct xs \<and> bwd (heap s) None xs \<and> fwd (heap s) xs None \<and>
     head s = first_opt xs \<and> tail s = last_opt xs"

lemma bwd_append:
  "bwd h p (xs @ ys) = (bwd h p xs \<and> bwd h (if xs = [] then p else Some (last xs)) ys)"
  by (induction xs arbitrary: p) auto

lemma fwd_append:
  "fwd h (xs @ ys) q = (fwd h xs (if ys = [] then q else Some (hd ys)) \<and> fwd h ys q)"
  by (induction xs) auto

lemma bwd_cong:
  "(\<And>x. x \<in> set xs \<Longrightarrow> prev (h' x) = prev (h x)) \<Longrightarrow> bwd h' p xs = bwd h p xs"
  by (induction xs arbitrary: p) auto

lemma fwd_cong:
  "(\<And>x. x \<in> set xs \<Longrightarrow> next (h' x) = next (h x)) \<Longrightarrow> fwd h' xs q = fwd h xs q"
  by (induction xs) auto

lemma set_prev_simps [simp]:
  "head (set_prev a p s) = head s" "tail (set_prev a p s) = tail s"
  "len (set_prev a p s) = len s" "cost (set_prev a p s) = cost s"
  "prev (heap (set_prev a p s) b) = (if b = a then p else prev (heap s b))"
  "next (heap (set_prev a p s) b) = next (heap s b)"
  "key (heap (set_prev a p s) b) = key (heap s b)"
  "val (heap (set_prev a p s) b) = val (heap s b)"
  "exp (heap (set_prev a p s) b) = exp (heap s b)"
  "node.cost (heap (set_prev a p s) b) = node.cost (heap s b)"
  by (simp_all add: set_prev_def)

lemma set_prev_frame [simp]:
  "m (set_prev a p s) = m s" "cap (set_prev a p s) = cap s"
  "maxCost (set_prev a p s) = maxCost s" "pol (set_prev a p s) = pol s"
  "onEvict (set_prev a p s) = onEvict s" "hits (set_prev a p s) = hits s"
  "misses (set_prev a p s) = misses s" "evicts (set_prev a p s) = evicts s"
  "fresh (set_prev a p s) = fresh s" "metrics (set_prev a p s) = metrics s"
  "callbacks (set_prev a p s) = callbacks s"
  by (simp_all add: set_prev_def)

lemma set_next_simps [simp]:
  "head (set_next a p s) = head s" "tail (set_next a p s) = tail s"
  "len (set_next a p s) = len s" "cost (set_next a p s) = cost s"
  "prev (heap (set_next a p s) b) = prev (heap s b)"
  "next (heap (set_next a p s) b) = (if b = a then p else next (heap s b))"
  "key (heap (set_next a p s) b) = key (heap s b)"
  "val (heap (set_next a p s) b) = val (heap s b)"
  "exp (heap (set_next a p s) b) = exp (heap s b)"
  "node.cost (heap (set_next a p s) b) = node.cost (heap s b)"
  by (simp_all add: set_next_def)

lemma set_next_frame [simp]:
  "m (set_next a p s) = m s" "cap (set_next a p s) = cap s"
  "maxCost (set_next a p s) = maxCost s" "pol (set_next a p s) = pol s"
  "onEvict (set_next a p s) = onEvict s" "hits (set_next a p s) = hits s"
  "misses (set_next a p s) = misses s" "evicts (set_next a p s) = evicts s"
  "fresh (set_next a p s) = fresh s" "metrics (set_next a p s) = metrics s"
  "callbacks (set_next a p s) = callbacks s"
  by (simp_all add: set_next_def)

lemma dll_links:
  assumes "dll s (ys @ n # zs)"
  shows "prev (heap s n) = last_opt ys" and "next (heap s n) = first_opt zs"
  using assms by (auto simp: dll_def bwd_append fwd_append first_opt_def last_opt_def)

lemma dll_ends:
  assumes "dll s (ys @ n # zs)"
  shows "head s = Some n \<longleftrightarrow> ys = []" and "tail s = Some n \<longleftrightarrow> zs = []"
    and "head s = (if ys = [] then Some n else Some (hd ys))"
    and "tail s = (if zs = [] then Some n else Some (last zs))"
proof -
  have d: "distinct (ys @ n # zs)" using assms by (simp add: dll_def)
  show h: "head s = (if ys = [] then Some n else Some (hd ys))"
    using assms by (simp add: dll_def first_opt_def)
  show t: "tail s = (if zs = [] then Some n else Some (last zs))"
    using assms by (simp add: dll_def last_opt_def)
  have "ys \<noteq> [] \<Longrightarrow> hd ys \<noteq> n" using d hd_in_set[of ys] by auto
  with h show "head s = Some n \<longleftrightarrow> ys = []" by auto
  have "zs \<noteq> [] \<Longrightarrow> last zs \<noteq> n" using d last_in_set[of zs] by auto
  with t show "tail s = Some n \<longleftrightarrow> zs = []" by auto
qed

lemma distinct_last_butlast: "distinct xs \<Longrightarrow> xs \<noteq> [] \<Longrightarrow> last xs \<notin> set (butlast xs)"
  by (cases xs rule: rev_cases) auto

lemma distinct_hd_tl: "distinct xs \<Longrightarrow> xs \<noteq> [] \<Longrightarrow> hd xs \<notin> set (tl xs)"
  by (cases xs) auto

lemma last_opt_in: "last_opt xs = Some x \<Longrightarrow> x \<in> set xs"
  by (auto simp: last_opt_def split: if_splits)

lemma first_opt_in: "first_opt xs = Some x \<Longrightarrow> x \<in> set xs"
  by (auto simp: first_opt_def split: if_splits)

text \<open>The fields of the state after removeNode, from the links of the node.\<close>

lemma removeNode_fields:
  assumes "prev (heap s n) = P" "next (heap s n) = Q" "P \<noteq> Some n" "Q \<noteq> Some n"
  shows "head (removeNode n s) = (if head s = Some n then Q else head s)"
    and "tail (removeNode n s) = (if tail s = Some n then P else tail s)"
    and "prev (heap (removeNode n s) a) =
           (if a = n then None else if Q = Some a then P else prev (heap s a))"
    and "next (heap (removeNode n s) a) =
           (if a = n then None else if P = Some a then Q else next (heap s a))"
  using assms
  by (cases P; cases Q; simp add: removeNode_def Let_def; fail)+

lemma dll_removeNode:
  assumes "dll s (ys @ n # zs)"
  shows "dll (removeNode n s) (ys @ zs)"
proof -
  let ?h = "heap s" and ?H = "heap (removeNode n s)"
  have d: "distinct (ys @ n # zs)" using assms by (simp add: dll_def)
  have b: "bwd ?h None ys" "bwd ?h (Some n) zs" 
    and f: "fwd ?h ys (Some n)" "fwd ?h zs None"
    using assms by (auto simp: dll_def bwd_append fwd_append)
  note lk = dll_links[OF assms] and en = dll_ends[OF assms]
  have Pn: "last_opt ys \<noteq> Some n" using d by (auto dest: last_opt_in)
  have Qn: "first_opt zs \<noteq> Some n" using d by (auto dest: first_opt_in)
  note rf = removeNode_fields[OF lk Pn Qn]
  have hd': "head (removeNode n s) = first_opt (ys @ zs)"
    using rf(1) en by (auto simp: first_opt_def)
  have tl': "tail (removeNode n s) = last_opt (ys @ zs)"
    using rf(2) en by (auto simp: last_opt_def)
  have pys: "prev (?H x) = prev (?h x)" if "x \<in> set ys" for x
  proof -
    have "first_opt zs \<noteq> Some x"
      using that d by (auto dest: first_opt_in)
    moreover have "x \<noteq> n" using that d by auto
    ultimately show ?thesis by (simp add: rf(3))
  qed
  have nys: "next (?H x) = next (?h x)" if "x \<in> set (butlast ys)" for x
  proof -
    have "ys \<noteq> [] \<Longrightarrow> x \<noteq> last ys" using that d distinct_last_butlast[of ys] by auto
    moreover have "x \<noteq> n" using that d in_set_butlastD[of x ys] by auto
    ultimately show ?thesis using that by (auto simp: rf(4) last_opt_def)
  qed
  have pzs: "prev (?H x) = prev (?h x)" if "x \<in> set (tl zs)" for x
  proof -
    have "zs \<noteq> [] \<Longrightarrow> x \<noteq> hd zs" using that d distinct_hd_tl[of zs] by auto
    moreover have "x \<noteq> n" using that d list.set_sel(2)[of zs x] by (cases zs) auto
    ultimately show ?thesis using that by (auto simp: rf(3) first_opt_def)
  qed
  have nzs: "next (?H x) = next (?h x)" if "x \<in> set zs" for x
  proof -
    have "last_opt ys \<noteq> Some x"
      using that d by (auto dest: last_opt_in)
    moreover have "x \<noteq> n" using that d by auto
    ultimately show ?thesis by (simp add: rf(4))
  qed
  have B1: "bwd ?H None ys" using bwd_cong[of ys ?H ?h None] pys b(1) by simp
  have B2: "bwd ?H (last_opt ys) zs"
  proof (cases zs)
    case Nil then show ?thesis by simp
  next
    case (Cons z zs')
    have "prev (?H z) = last_opt ys" using Cons d by (auto simp: rf(3) first_opt_def)
    moreover have "bwd ?H (Some z) zs'"
      using bwd_cong[of zs' ?H ?h "Some z"] pzs b(2) Cons by simp
    ultimately show ?thesis using Cons by simp
  qed
  have F2: "fwd ?H zs None" using fwd_cong[of zs ?H ?h None] nzs f(2) by simp
  have F1: "fwd ?H ys (first_opt zs)"
  proof (cases ys rule: rev_cases)
    case Nil then show ?thesis by simp
  next
    case (snoc ys' y)
    have "next (?H y) = first_opt zs" using snoc d by (auto simp: rf(4) last_opt_def)
    moreover have "fwd ?H ys' (Some y)"
      using fwd_cong[of ys' ?H ?h "Some y"] nys f(1) snoc by (simp add: fwd_append)
    ultimately show ?thesis using snoc by (simp add: fwd_append)
  qed
  show ?thesis
    unfolding dll_def using d B1 B2 F1 F2 hd' tl'
    by (auto simp: bwd_append fwd_append last_opt_def first_opt_def)
qed

lemma insertFront_fields:
  shows "head (insertFront n s) = Some n"
    and "tail (insertFront n s) = (if tail s = None then Some n else tail s)"
    and "prev (heap (insertFront n s) a) =
           (if head s = Some a then Some n else if a = n then None else prev (heap s a))"
    and "next (heap (insertFront n s) a) = (if a = n then head s else next (heap s a))"
  by (cases "head s"; simp add: insertFront_def Let_def; fail)+

lemma dll_insertFront:
  assumes "dll s xs" "n \<notin> set xs"
  shows "dll (insertFront n s) (n # xs)"
proof -
  let ?h = "heap s" and ?H = "heap (insertFront n s)"
  note f = insertFront_fields[of n s]
  have hs: "head s = first_opt xs" and ts: "tail s = last_opt xs"
    and b: "bwd ?h None xs" and fw: "fwd ?h xs None" and d: "distinct xs"
    using assms by (auto simp: dll_def)
  have nx: "next (?H x) = next (?h x)" if "x \<in> set xs" for x
    using that assms(2) by (auto simp: f(4))
  have px: "prev (?H x) = prev (?h x)" if "x \<in> set (tl xs)" for x
  proof -
    have "x \<noteq> n" using that assms(2) list.set_sel(2)[of xs x] by (cases xs) auto
    moreover have "head s \<noteq> Some x"
      using that d distinct_hd_tl[of xs] by (cases xs) (auto simp: hs first_opt_def)
    ultimately show ?thesis by (simp add: f(3))
  qed
  have B: "bwd ?H (Some n) xs"
  proof (cases xs)
    case Nil then show ?thesis by simp
  next
    case (Cons z zs)
    have "prev (?H z) = Some n" using Cons by (simp add: f(3) hs first_opt_def)
    moreover have "bwd ?H (Some z) zs"
      using bwd_cong[of zs ?H ?h "Some z"] px b Cons by simp
    ultimately show ?thesis using Cons by simp
  qed
  have F: "fwd ?H xs None" using fwd_cong[of xs ?H ?h None] nx fw by simp
  have "prev (?H n) = None" using assms(2) by (auto simp: f(3) hs dest: first_opt_in)
  moreover have "next (?H n) = first_opt xs" by (simp add: f(4) hs)
  ultimately show ?thesis
    unfolding dll_def using B F d assms(2) f(1) f(2) ts
    by (auto simp: first_opt_def last_opt_def)
qed

lemma moveToFront_fields:
  assumes "prev (heap s n) = P" "next (heap s n) = Q" "P \<noteq> Some n" "Q \<noteq> Some n"
    "head s \<noteq> Some n"
  shows "head (moveToFront n s) = Some n"
    and "tail (moveToFront n s) =
           (if (if tail s = Some n then P else tail s) = None then Some n
            else (if tail s = Some n then P else tail s))"
    and "prev (heap (moveToFront n s) a) =
           (if head s = Some a then Some n else if a = n then None
            else if Q = Some a then P else prev (heap s a))"
    and "next (heap (moveToFront n s) a) =
           (if a = n then head s else if P = Some a then Q else next (heap s a))"
  using assms
  by (cases P; cases Q; cases "head s"; simp add: moveToFront_def Let_def; fail)+

lemma dll_cong:
  assumes "head s' = head s" "tail s' = tail s"
    and "\<And>a. a \<in> set xs \<Longrightarrow> prev (heap s' a) = prev (heap s a)"
    and "\<And>a. a \<in> set xs \<Longrightarrow> next (heap s' a) = next (heap s a)"
  shows "dll s' xs = dll s xs"
  using assms bwd_cong[of xs "heap s'" "heap s" None] fwd_cong[of xs "heap s'" "heap s" None]
  by (simp add: dll_def)

lemma dll_moveToFront:
  assumes "dll s (ys @ n # zs)"
  shows "dll (moveToFront n s) (n # ys @ zs)"
proof (cases "ys = []")
  case True
  with assms have "head s = Some n" by (simp add: dll_def first_opt_def)
  with True assms show ?thesis by (simp add: moveToFront_def)
next
  case False
  have d: "distinct (ys @ n # zs)" using assms by (simp add: dll_def)
  note lk = dll_links[OF assms] and en = dll_ends[OF assms]
  have Pn: "last_opt ys \<noteq> Some n" using d by (auto dest: last_opt_in)
  have Qn: "first_opt zs \<noteq> Some n" using d by (auto dest: first_opt_in)
  have hn: "head s \<noteq> Some n" using en(1) False by simp
  note mf = moveToFront_fields[OF lk Pn Qn hn]
  note rf = removeNode_fields[OF lk Pn Qn]
  note inf = insertFront_fields[of n "removeNode n s"]
  have "dll (insertFront n (removeNode n s)) (n # ys @ zs)"
    using dll_insertFront[OF dll_removeNode[OF assms], of n] d by simp
  moreover have "dll (moveToFront n s) (n # ys @ zs) = dll (insertFront n (removeNode n s)) (n # ys @ zs)"
    by (rule dll_cong) (simp_all add: mf rf inf hn)
  ultimately show ?thesis by simp
qed

lemma insertFront_frame [simp]:
  "m (insertFront n s) = m s" "cap (insertFront n s) = cap s"
  "maxCost (insertFront n s) = maxCost s" "pol (insertFront n s) = pol s"
  "onEvict (insertFront n s) = onEvict s" "hits (insertFront n s) = hits s"
  "misses (insertFront n s) = misses s" "evicts (insertFront n s) = evicts s"
  "fresh (insertFront n s) = fresh s" "metrics (insertFront n s) = metrics s"
  "callbacks (insertFront n s) = callbacks s"
  "key (heap (insertFront n s) a) = key (heap s a)"
  "val (heap (insertFront n s) a) = val (heap s a)"
  "exp (heap (insertFront n s) a) = exp (heap s a)"
  "node.cost (heap (insertFront n s) a) = node.cost (heap s a)"
  "len (insertFront n s) = len s + 1"
  "cost (insertFront n s) = cost s + node.cost (heap s n)"
  by (cases "head s"; simp add: insertFront_def Let_def; fail)+

lemma moveToFront_frame [simp]:
  "m (moveToFront n s) = m s" "cap (moveToFront n s) = cap s"
  "maxCost (moveToFront n s) = maxCost s" "pol (moveToFront n s) = pol s"
  "onEvict (moveToFront n s) = onEvict s" "hits (moveToFront n s) = hits s"
  "misses (moveToFront n s) = misses s" "evicts (moveToFront n s) = evicts s"
  "fresh (moveToFront n s) = fresh s" "metrics (moveToFront n s) = metrics s"
  "callbacks (moveToFront n s) = callbacks s"
  "key (heap (moveToFront n s) a) = key (heap s a)"
  "val (heap (moveToFront n s) a) = val (heap s a)"
  "exp (heap (moveToFront n s) a) = exp (heap s a)"
  "node.cost (heap (moveToFront n s) a) = node.cost (heap s a)"
  "len (moveToFront n s) = len s"
  "cost (moveToFront n s) = cost s"
  by (cases "prev (heap s n)"; cases "next (heap s n)"; cases "head s";
      simp add: moveToFront_def Let_def; fail)+

lemma removeNode_frame [simp]:
  "m (removeNode n s) = m s" "cap (removeNode n s) = cap s"
  "maxCost (removeNode n s) = maxCost s" "pol (removeNode n s) = pol s"
  "onEvict (removeNode n s) = onEvict s" "hits (removeNode n s) = hits s"
  "misses (removeNode n s) = misses s" "evicts (removeNode n s) = evicts s"
  "fresh (removeNode n s) = fresh s" "metrics (removeNode n s) = metrics s"
  "callbacks (removeNode n s) = callbacks s"
  "key (heap (removeNode n s) a) = key (heap s a)"
  "val (heap (removeNode n s) a) = val (heap s a)"
  "exp (heap (removeNode n s) a) = exp (heap s a)"
  "node.cost (heap (removeNode n s) a) = node.cost (heap s a)"
  "len (removeNode n s) = len s - 1"
  "cost (removeNode n s) = (if cost s - node.cost (heap s n) < 0 then 0 else cost s - node.cost (heap s n))"
  by (cases "prev (heap s n)"; cases "next (heap s n)";
      simp add: removeNode_def Let_def; fail)+

section \<open>Well-formed shards\<close>

text \<open>
  What the 2Q bookkeeping keeps true, over the set \<open>R\<close> of resident nodes and their keys
  \<open>kf\<close>: A1in holds resident nodes only, each once; each index is the set of its list; no
  ghost key is the key of a node of A1in.
\<close>

definition twoq_ok :: "'k twoQ \<Rightarrow> (addr \<Rightarrow> 'k) \<Rightarrow> addr set \<Rightarrow> bool" where
  "twoq_ok q kf R \<longleftrightarrow>
     1 \<le> capIn q \<and> distinct (inList q) \<and> set (inList q) \<subseteq> R \<and> inIdx q = set (inList q) \<and>
     distinct (ghostList q) \<and> ghostIdx q = set (ghostList q) \<and>
     kf ` set (inList q) \<inter> set (ghostList q) = {}"

definition pol_ok :: "'k ShardPolicy \<Rightarrow> (addr \<Rightarrow> 'k) \<Rightarrow> addr set \<Rightarrow> bool" where
  "pol_ok p kf R = (case p of LRU \<Rightarrow> True | TwoQ q \<Rightarrow> twoq_ok q kf R)"

text \<open>
  \<open>shard_ok s xs\<close>: the shard \<open>s\<close> holds exactly the nodes \<open>xs\<close>, MRU first. The links
  form the list, \<open>len\<close> and \<open>cost\<close> are its length and its total cost, every node is
  allocated and has a cost that is not negative (the cache clamps costs to
  \<open>[0, 2^31 - 1]\<close>), the map sends each key to the node of the list that carries it, and
  the policy's own state is consistent with the list.
\<close>

definition shard_ok :: "('k, 'v) shard \<Rightarrow> addr list \<Rightarrow> bool" where
  "shard_ok s xs \<longleftrightarrow>
     dll s xs \<and> len s = int (length xs) \<and>
     cost s = sum_list (map (\<lambda>a. node.cost (heap s a)) xs) \<and>
     (\<forall>a \<in> set xs. a < fresh s \<and> 0 \<le> node.cost (heap s a)) \<and>
     (\<forall>k a. m s k = Some a \<longleftrightarrow> a \<in> set xs \<and> key (heap s a) = k) \<and>
     pol_ok (pol s) (\<lambda>a. key (heap s a)) (set xs)"

text \<open>The events of a trace that report an eviction.\<close>

definition is_Evict :: "event \<Rightarrow> bool" where
  "is_Evict e = (case e of Evict r \<Rightarrow> True | _ \<Rightarrow> False)"

text \<open>What an eviction leaves unchanged.\<close>

definition only_evicts :: "('k, 'v) shard \<Rightarrow> ('k, 'v) shard \<Rightarrow> bool" where
  "only_evicts s s' \<longleftrightarrow>
     cap s' = cap s \<and> maxCost s' = maxCost s \<and> onEvict s' = onEvict s \<and>
     hits s' = hits s \<and> misses s' = misses s \<and> fresh s' = fresh s \<and>
     (\<forall>a. key (heap s' a) = key (heap s a) \<and> val (heap s' a) = val (heap s a) \<and>
          exp (heap s' a) = exp (heap s a) \<and> node.cost (heap s' a) = node.cost (heap s a))"

section \<open>The shard operations keep the shard well formed\<close>

lemma twoq_ok_OnAdd:
  assumes "twoq_ok q kf R" "n \<notin> R" "key (heap s n) = kf n"
  shows "twoq_ok (fst (snd (twoq_OnAdd q n s))) kf (insert n R)"
proof (cases "kf n \<in> ghostIdx q")
  case True
  with assms show ?thesis
    by (auto simp: twoq_ok_def twoq_OnAdd_def Let_def dest: notin_set_remove1)
next
  case False
  with assms show ?thesis
    by (auto simp: twoq_ok_def twoq_OnAdd_def Let_def)
qed

lemma twoq_ok_OnGet:
  assumes "twoq_ok q kf R"
  shows "twoq_ok (fst (twoq_OnGet q n s)) kf R"
proof (cases "n \<in> inIdx q")
  case False
  with assms show ?thesis by (simp add: twoq_OnGet_def)
next
  case True
  have "set (remove1 n (inList q)) \<subseteq> set (inList q)" by (rule set_remove1_subset)
  moreover have "set (remove1 n (inList q)) = set (inList q) - {n}"
    using assms by (simp add: twoq_ok_def)
  ultimately show ?thesis using True assms
    by (simp add: twoq_OnGet_def twoq_ok_def) blast
qed

lemma trimGhosts_props:
  "capIn (trimGhosts q) = capIn q \<and> capGhost (trimGhosts q) = capGhost q \<and>
   inList (trimGhosts q) = inList q \<and> inIdx (trimGhosts q) = inIdx q \<and>
   set (ghostList (trimGhosts q)) \<subseteq> set (ghostList q) \<and>
   (distinct (ghostList q) \<longrightarrow> distinct (ghostList (trimGhosts q))) \<and>
   (distinct (ghostList q) \<and> ghostIdx q = set (ghostList q) \<longrightarrow>
      ghostIdx (trimGhosts q) = set (ghostList (trimGhosts q)))"
proof (induction q rule: trimGhosts.induct)
  case (1 q)
  show ?case
  proof (cases "int (length (ghostList q)) > capGhost q \<and> ghostList q \<noteq> []")
    case False
    then show ?thesis by (subst (1 2 3 4 5 6 7 8) trimGhosts.simps) (auto split: list.splits)
  next
    case True
    then obtain g gs where g: "ghostList q = g # gs" by (cases "ghostList q") auto
    let ?q' = "q\<lparr>ghostIdx := ghostIdx q - {last (ghostList q)},
                   ghostList := butlast (ghostList q)\<rparr>"
    have eq: "trimGhosts q = trimGhosts ?q'"
      using True g by (subst trimGhosts.simps) simp
    have ih: "capIn (trimGhosts ?q') = capIn ?q' \<and> capGhost (trimGhosts ?q') = capGhost ?q' \<and>
      inList (trimGhosts ?q') = inList ?q' \<and> inIdx (trimGhosts ?q') = inIdx ?q' \<and>
      set (ghostList (trimGhosts ?q')) \<subseteq> set (ghostList ?q') \<and>
      (distinct (ghostList ?q') \<longrightarrow> distinct (ghostList (trimGhosts ?q'))) \<and>
      (distinct (ghostList ?q') \<and> ghostIdx ?q' = set (ghostList ?q') \<longrightarrow>
         ghostIdx (trimGhosts ?q') = set (ghostList (trimGhosts ?q')))"
      using "1.IH"[OF _ g] True by simp
    have sub: "set (butlast (ghostList q)) \<subseteq> set (ghostList q)"
      by (auto dest: in_set_butlastD)
    have dl: "distinct (ghostList q) \<Longrightarrow> set (ghostList q) - {last (ghostList q)} = set (butlast (ghostList q))"
      using True distinct_last_butlast[of "ghostList q"] append_butlast_last_id[of "ghostList q"]
      by (metis Diff_insert_absorb Un_insert_right append_Nil2 list.simps(15) set_append)
    show ?thesis
      unfolding eq using ih sub dl by (auto simp: distinct_butlast)
  qed
qed

lemma twoq_ok_OnRemove:
  assumes ok: "twoq_ok q kf R" and inj: "inj_on kf R" and n: "n \<in> R" "key (heap s n) = kf n"
  shows "twoq_ok (twoq_OnRemove q n s) kf (R - {n})"
proof (cases "n \<in> inIdx q")
  case False
  with ok show ?thesis by (auto simp: twoq_ok_def twoq_OnRemove_def)
next
  case True
  let ?k = "kf n"
  let ?q3 = "q\<lparr>inList := remove1 n (inList q), inIdx := inIdx q - {n},
                ghostList := ?k # remove1 ?k (ghostList q), ghostIdx := insert ?k (ghostIdx q)\<rparr>"
  have rm: "?k \<notin> ghostIdx q \<Longrightarrow> remove1 ?k (ghostList q) = ghostList q"
    using ok by (simp add: twoq_ok_def remove1_idem)
  have eq: "twoq_OnRemove q n s = trimGhosts ?q3"
    using True n(2) rm by (cases "?k \<in> ghostIdx q") (simp_all add: twoq_OnRemove_def Let_def)
  have d3: "distinct (ghostList ?q3)" using ok by (simp add: twoq_ok_def)
  have i3: "ghostIdx ?q3 = set (ghostList ?q3)" using ok by (auto simp: twoq_ok_def)
  have in3: "set (inList ?q3) = set (inList q) - {n}" using ok by (simp add: twoq_ok_def)
  have dj3: "kf ` set (inList ?q3) \<inter> set (ghostList ?q3) = {}"
  proof -
    have "kf a \<notin> insert ?k (set (remove1 ?k (ghostList q)))" if "a \<in> set (inList q) - {n}" for a
    proof -
      have "a \<in> R" "a \<noteq> n" using that ok by (auto simp: twoq_ok_def)
      with inj n(1) have "kf a \<noteq> ?k" by (auto simp: inj_on_def)
      moreover have "kf a \<notin> set (ghostList q)" using that ok by (auto simp: twoq_ok_def)
      then have "kf a \<notin> set (remove1 ?k (ghostList q))" by (auto dest: notin_set_remove1)
      ultimately show ?thesis by simp
    qed
    then have "kf ` (set (inList q) - {n}) \<inter> insert ?k (set (remove1 ?k (ghostList q))) = {}"
      by blast
    then show ?thesis using in3 by simp
  qed
  note tp = trimGhosts_props[of ?q3]
  have c3: "1 \<le> capIn ?q3" "distinct (inList ?q3)" "inIdx ?q3 = set (inList ?q3)"
    "set (inList ?q3) \<subseteq> R - {n}"
    using ok by (auto simp: twoq_ok_def)
  have g: "set (ghostList (trimGhosts ?q3)) \<subseteq> set (ghostList ?q3)" using tp by blast
  have "kf ` set (inList ?q3) \<inter> set (ghostList (trimGhosts ?q3)) = {}"
    using dj3 g by blast
  moreover have "distinct (ghostList (trimGhosts ?q3))" using tp d3 by blast
  moreover have "ghostIdx (trimGhosts ?q3) = set (ghostList (trimGhosts ?q3))" using tp d3 i3 by blast
  moreover have "inList (trimGhosts ?q3) = inList ?q3" "inIdx (trimGhosts ?q3) = inIdx ?q3"
     "capIn (trimGhosts ?q3) = capIn ?q3" using tp by blast+
  ultimately show ?thesis
    unfolding eq twoq_ok_def using c3 by simp
qed

lemma pol_OnRemove_frame [simp]:
  "m (pol_OnRemove n s) = m s" "cap (pol_OnRemove n s) = cap s"
  "maxCost (pol_OnRemove n s) = maxCost s" 
  "onEvict (pol_OnRemove n s) = onEvict s" "hits (pol_OnRemove n s) = hits s"
  "misses (pol_OnRemove n s) = misses s" "evicts (pol_OnRemove n s) = evicts s"
  "fresh (pol_OnRemove n s) = fresh s" "metrics (pol_OnRemove n s) = metrics s"
  "callbacks (pol_OnRemove n s) = callbacks s"
  "heap (pol_OnRemove n s) = heap s" "head (pol_OnRemove n s) = head s"
  "tail (pol_OnRemove n s) = tail s"
  "len (pol_OnRemove n s) = len s"
  "cost (pol_OnRemove n s) = cost s"
  by (simp_all add: pol_OnRemove_def lru_OnRemove_def split: ShardPolicy.splits)

lemma dll_heap_eq:
  "heap s' = heap s \<Longrightarrow> head s' = head s \<Longrightarrow> tail s' = tail s \<Longrightarrow> dll s' xs = dll s xs"
  by (simp add: dll_def)

lemma pol_ok_OnRemove:
  assumes "pol_ok (pol s) kf R" "inj_on kf R" "n \<in> R" "key (heap s n) = kf n"
  shows "pol_ok (pol (pol_OnRemove n s)) kf (R - {n})"
  using assms twoq_ok_OnRemove[of _ kf R n s]
  by (auto simp: pol_ok_def pol_OnRemove_def lru_OnRemove_def split: ShardPolicy.splits)

lemma shard_ok_map:
  "shard_ok s xs \<Longrightarrow> m s k = Some a \<longleftrightarrow> a \<in> set xs \<and> key (heap s a) = k"
  by (simp add: shard_ok_def)

lemma shard_ok_inj:
  assumes "shard_ok s xs"
  shows "inj_on (\<lambda>a. key (heap s a)) (set xs)"
proof (rule inj_onI)
  fix a b
  assume "a \<in> set xs" "b \<in> set xs" "key (heap s a) = key (heap s b)"
  then have "m s (key (heap s a)) = Some a" "m s (key (heap s a)) = Some b"
    using shard_ok_map[OF assms] by auto
  then show "a = b" by simp
qed

lemma evictNode_frame [simp]:
  "cap (evictNode n r s) = cap s" "maxCost (evictNode n r s) = maxCost s"
  "onEvict (evictNode n r s) = onEvict s" "hits (evictNode n r s) = hits s"
  "misses (evictNode n r s) = misses s" "evicts (evictNode n r s) = evicts s + 1"
  "fresh (evictNode n r s) = fresh s" "metrics (evictNode n r s) = metrics s @ [Evict r]"
  "key (heap (evictNode n r s) a) = key (heap s a)"
  "val (heap (evictNode n r s) a) = val (heap s a)"
  "exp (heap (evictNode n r s) a) = exp (heap s a)"
  "node.cost (heap (evictNode n r s) a) = node.cost (heap s a)"
  "len (evictNode n r s) = len s - 1"
  "m (evictNode n r s) = (m s)(key (heap s n) := None)"
  "callbacks (evictNode n r s) =
     (if onEvict s then callbacks s @ [(key (heap s n), val (heap s n), r)] else callbacks s)"
  by (simp_all add: evictNode_def Let_def)

lemma sum_list_nonneg_costs:
  "(\<forall>a\<in>set xs. (0::int) \<le> f a) \<Longrightarrow> 0 \<le> sum_list (map f xs)"
  by (induction xs) auto

lemma shard_ok_evictNode:
  assumes ok: "shard_ok s xs" and a: "a \<in> set xs"
  shows "shard_ok (evictNode a r s) (remove1 a xs)"
proof -
  from a obtain ys zs where xs: "xs = ys @ a # zs" and ays: "a \<notin> set ys"
    by (auto dest: split_list_first)
  have d: "distinct xs" using ok by (simp add: shard_ok_def dll_def)
  have r1: "remove1 a xs = ys @ zs" using xs ays by (simp add: remove1_append)
  have azs: "a \<notin> set zs" using d xs by auto
  let ?s1 = "pol_OnRemove a s"
  have "dll ?s1 (ys @ a # zs)" using ok xs dll_heap_eq[of ?s1 s] by (simp add: shard_ok_def)
  then have dl: "dll (removeNode a ?s1) (ys @ zs)" by (rule dll_removeNode)
  have hp: "prev (heap (evictNode a r s) b) = prev (heap (removeNode a ?s1) b)"
           "next (heap (evictNode a r s) b) = next (heap (removeNode a ?s1) b)" for b
    by (simp_all add: evictNode_def Let_def)
  have ht: "head (evictNode a r s) = head (removeNode a ?s1)"
           "tail (evictNode a r s) = tail (removeNode a ?s1)"
    by (simp_all add: evictNode_def Let_def)
  have D: "dll (evictNode a r s) (ys @ zs)"
    using dl dll_cong[of "evictNode a r s" "removeNode a ?s1" "ys @ zs"] hp ht by simp
  have nn: "\<forall>b\<in>set xs. 0 \<le> node.cost (heap s b)" using ok by (simp add: shard_ok_def)
  have cs: "cost s = sum_list (map (\<lambda>b. node.cost (heap s b)) xs)" using ok by (simp add: shard_ok_def)
  have rest: "0 \<le> sum_list (map (\<lambda>b. node.cost (heap s b)) (ys @ zs))"
    using nn xs sum_list_nonneg_costs[of "ys @ zs" "\<lambda>b. node.cost (heap s b)"] by auto
  have C: "cost (evictNode a r s) = sum_list (map (\<lambda>b. node.cost (heap (evictNode a r s) b)) (ys @ zs))"
    using cs rest xs by (simp add: evictNode_def Let_def)
  have L: "len (evictNode a r s) = int (length (ys @ zs))"
    using ok xs by (simp add: shard_ok_def)
  have mp: "\<forall>k b. m s k = Some b \<longleftrightarrow> b \<in> set xs \<and> key (heap s b) = k"
    using ok by (simp add: shard_ok_def)
  have M: "\<forall>k b. m (evictNode a r s) k = Some b \<longleftrightarrow>
              b \<in> set (ys @ zs) \<and> key (heap (evictNode a r s) b) = k"
  proof (intro allI)
    fix k b
    have "key (heap s b) \<noteq> key (heap s a)" if "b \<in> set (ys @ zs)"
    proof
      assume e: "key (heap s b) = key (heap s a)"
      have "b \<in> set xs" using that xs by auto
      with mp e a have "m s (key (heap s a)) = Some b" "m s (key (heap s a)) = Some a" by auto
      then have "b = a" by simp
      with that ays azs show False by auto
    qed
    moreover have "b \<in> set xs \<longleftrightarrow> b = a \<or> b \<in> set (ys @ zs)" using xs by auto
    ultimately show "m (evictNode a r s) k = Some b \<longleftrightarrow>
              b \<in> set (ys @ zs) \<and> key (heap (evictNode a r s) b) = k"
      using mp by auto
  qed
  have st: "set (ys @ zs) = set xs - {a}" using xs ays azs by auto
  have P: "pol_ok (pol (evictNode a r s)) (\<lambda>b. key (heap (evictNode a r s) b)) (set (ys @ zs))"
    using pol_ok_OnRemove[of s "\<lambda>b. key (heap s b)" "set xs" a] shard_ok_inj[OF ok] ok a
    unfolding st by (simp add: evictNode_def Let_def shard_ok_def)
  have A: "\<forall>b\<in>set (ys @ zs). b < fresh (evictNode a r s) \<and> 0 \<le> node.cost (heap (evictNode a r s) b)"
    using ok xs by (auto simp: shard_ok_def)
  show ?thesis
    unfolding r1 shard_ok_def by (intro conjI D L C A M P)
qed

lemma pol_OnGet_frame [simp]:
  "m (pol_OnGet n s) = m s" "cap (pol_OnGet n s) = cap s"
  "maxCost (pol_OnGet n s) = maxCost s"
  "onEvict (pol_OnGet n s) = onEvict s" "hits (pol_OnGet n s) = hits s"
  "misses (pol_OnGet n s) = misses s" "evicts (pol_OnGet n s) = evicts s"
  "fresh (pol_OnGet n s) = fresh s" "metrics (pol_OnGet n s) = metrics s"
  "callbacks (pol_OnGet n s) = callbacks s"
  "heap (pol_OnGet n s) = heap (moveToFront n s)" "head (pol_OnGet n s) = head (moveToFront n s)"
  "tail (pol_OnGet n s) = tail (moveToFront n s)"
  "len (pol_OnGet n s) = len s"
  "cost (pol_OnGet n s) = cost s"
  by (simp_all add: pol_OnGet_def lru_OnGet_def twoq_OnGet_def split: ShardPolicy.splits)

lemma pol_OnUpdate_eq: "pol_OnUpdate n s = pol_OnGet n s"
  by (cases "pol s")
     (simp_all add: pol_OnUpdate_def pol_OnGet_def lru_OnUpdate_def lru_OnGet_def twoq_OnUpdate_def)

lemma pol_ok_OnGet:
  assumes "pol_ok (pol s) kf R"
  shows "pol_ok (pol (pol_OnGet n s)) kf R"
proof (cases "pol s")
  case LRU
  then show ?thesis by (simp add: pol_ok_def pol_OnGet_def lru_OnGet_def)
next
  case (TwoQ q)
  with assms have "twoq_ok (fst (twoq_OnGet q n s)) kf R"
    by (intro twoq_ok_OnGet) (simp add: pol_ok_def)
  with TwoQ show ?thesis
    by (simp add: pol_ok_def pol_OnGet_def case_prod_beta)
qed

lemma shard_ok_OnGet:
  assumes ok: "shard_ok s xs" and n: "n \<in> set xs"
  shows "shard_ok (pol_OnGet n s) (n # remove1 n xs)"
proof -
  from n obtain ys zs where xs: "xs = ys @ n # zs" and nys: "n \<notin> set ys"
    by (auto dest: split_list_first)
  have r1: "remove1 n xs = ys @ zs" using xs nys by (simp add: remove1_append)
  have st: "set (n # ys @ zs) = set xs" using xs by auto
  have "dll (moveToFront n s) (n # ys @ zs)"
    using ok xs dll_moveToFront[of s ys n zs] by (simp add: shard_ok_def)
  then have D: "dll (pol_OnGet n s) (n # ys @ zs)"
    using dll_heap_eq[of "pol_OnGet n s" "moveToFront n s"] by simp
  have L: "len (pol_OnGet n s) = int (length (n # ys @ zs))"
    using ok xs by (simp add: shard_ok_def)
  have C: "cost (pol_OnGet n s) = sum_list (map (\<lambda>a. node.cost (heap (pol_OnGet n s) a)) (n # ys @ zs))"
    using ok xs by (simp add: shard_ok_def)
  have A: "\<forall>a\<in>set (n # ys @ zs). a < fresh (pol_OnGet n s) \<and> 0 \<le> node.cost (heap (pol_OnGet n s) a)"
    using ok unfolding st by (simp add: shard_ok_def)
  have M: "\<forall>k a. m (pol_OnGet n s) k = Some a \<longleftrightarrow>
              a \<in> set (n # ys @ zs) \<and> key (heap (pol_OnGet n s) a) = k"
    using ok unfolding st by (simp add: shard_ok_def)
  have P: "pol_ok (pol (pol_OnGet n s)) (\<lambda>a. key (heap (pol_OnGet n s) a)) (set (n # ys @ zs))"
    using ok pol_ok_OnGet[of s "\<lambda>a. key (heap s a)" "set xs" n] unfolding st
    by (simp add: shard_ok_def)
  show ?thesis unfolding r1 shard_ok_def by (intro conjI D L C A M P)
qed

lemma pol_OnAdd_frame [simp]:
  "m (snd (pol_OnAdd n s)) = m s" "cap (snd (pol_OnAdd n s)) = cap s"
  "maxCost (snd (pol_OnAdd n s)) = maxCost s"
  "onEvict (snd (pol_OnAdd n s)) = onEvict s" "hits (snd (pol_OnAdd n s)) = hits s"
  "misses (snd (pol_OnAdd n s)) = misses s" "evicts (snd (pol_OnAdd n s)) = evicts s"
  "fresh (snd (pol_OnAdd n s)) = fresh s" "metrics (snd (pol_OnAdd n s)) = metrics s"
  "callbacks (snd (pol_OnAdd n s)) = callbacks s"
  "heap (snd (pol_OnAdd n s)) = heap (insertFront n s)"
  "head (snd (pol_OnAdd n s)) = head (insertFront n s)"
  "tail (snd (pol_OnAdd n s)) = tail (insertFront n s)"
  "len (snd (pol_OnAdd n s)) = len s + 1"
  "cost (snd (pol_OnAdd n s)) = cost s + node.cost (heap s n)"
  by (simp_all add: pol_OnAdd_def lru_OnAdd_def twoq_OnAdd_def Let_def
       split: ShardPolicy.splits list.splits)

lemma twoq_ok_cong:
  assumes "twoq_ok q kf R" "\<And>a. a \<in> R \<Longrightarrow> kf' a = kf a"
  shows "twoq_ok q kf' R"
proof -
  have "kf' ` set (inList q) = kf ` set (inList q)"
    using assms by (intro image_cong) (auto simp: twoq_ok_def)
  with assms(1) show ?thesis by (simp add: twoq_ok_def)
qed

lemma pol_ok_cong:
  assumes "pol_ok p kf R" "\<And>a. a \<in> R \<Longrightarrow> kf' a = kf a"
  shows "pol_ok p kf' R"
  using assms twoq_ok_cong[of _ kf R kf'] by (auto simp: pol_ok_def split: ShardPolicy.splits)

lemma pol_ok_OnAdd:
  assumes "pol_ok (pol s) kf R" "n \<notin> R" "key (heap s n) = kf n"
  shows "pol_ok (pol (snd (pol_OnAdd n s))) kf (insert n R)"
proof (cases "pol s")
  case LRU
  then show ?thesis by (simp add: pol_ok_def pol_OnAdd_def lru_OnAdd_def)
next
  case (TwoQ q)
  with assms have "twoq_ok (fst (snd (twoq_OnAdd q n s))) kf (insert n R)"
    by (intro twoq_ok_OnAdd) (simp_all add: pol_ok_def)
  with TwoQ show ?thesis
    by (simp add: pol_ok_def pol_OnAdd_def case_prod_beta)
qed

lemma twoq_OnAdd_candidate:
  assumes "twoq_ok q kf R" "fst (twoq_OnAdd q n s) = Some e" "n \<notin> R"
  shows "e \<in> R" "e \<noteq> n"
proof -
  have ne: "inList q \<noteq> []" and e: "e = last (inList q)"
    using assms by (auto simp: twoq_OnAdd_def Let_def twoq_ok_def split: if_splits)
  then have "e \<in> set (inList q)" by simp
  with assms(1) show "e \<in> R" by (auto simp: twoq_ok_def)
  with assms(3) show "e \<noteq> n" by auto
qed

lemma pol_OnAdd_candidate:
  assumes "pol_ok (pol s) kf R" "fst (pol_OnAdd n s) = Some e" "n \<notin> R"
  shows "e \<in> R \<and> e \<noteq> n"
proof (cases "pol s")
  case LRU
  with assms show ?thesis by (simp add: pol_OnAdd_def lru_OnAdd_def)
next
  case (TwoQ q)
  with assms have "twoq_ok q kf R" "fst (twoq_OnAdd q n s) = Some e"
    by (simp_all add: pol_ok_def pol_OnAdd_def case_prod_beta)
  with assms(3) show ?thesis using twoq_OnAdd_candidate[of q kf R n s e] by simp
qed

lemma shard_ok_add_pre:
  fixes s :: "('k, 'v) shard" and v :: 'v and ttl :: int
  assumes ok: "shard_ok s xs" and mk: "m s k = None" and c: "0 \<le> c"
  defines "n \<equiv> fresh s"
  defines "s2 \<equiv> (snd (new_node k v ttl c s))\<lparr>m := (m (snd (new_node k v ttl c s)))(k \<mapsto> n)\<rparr>"
  shows "shard_ok (snd (pol_OnAdd n s2)) (n # xs)"
    and "n \<notin> set xs"
    and "fst (pol_OnAdd n s2) = Some e \<Longrightarrow> e \<in> set xs \<and> e \<noteq> n"
proof -
  let ?s3 = "snd (pol_OnAdd n s2)"
  show nx: "n \<notin> set xs" using ok by (auto simp: shard_ok_def n_def)
  have h2: "heap s2 = (heap s)(n := \<lparr>key = k, val = v, prev = None, next = None, exp = ttl, node.cost = c\<rparr>)"
    and f2: "head s2 = head s" "tail s2 = tail s" "len s2 = len s" "cost s2 = cost s"
      "fresh s2 = Suc (fresh s)" "m s2 = (m s)(k \<mapsto> n)" "pol s2 = pol s"
    by (simp_all add: s2_def new_node_def n_def)
  have same: "heap s2 a = heap s a" if "a \<in> set xs" for a
    using that nx by (auto simp: h2)
  have "dll s2 xs = dll s xs"
    by (rule dll_cong) (simp_all add: f2 same)
  then have "dll s2 xs" using ok by (simp add: shard_ok_def)
  then have "dll (insertFront n s2) (n # xs)" using nx by (rule dll_insertFront)
  then have D: "dll ?s3 (n # xs)"
    using dll_heap_eq[of ?s3 "insertFront n s2"] by simp
  have L: "len ?s3 = int (length (n # xs))" using ok by (simp add: f2 shard_ok_def)
  have e: "sum_list (map (\<lambda>a. node.cost (heap s2 a)) xs) = sum_list (map (\<lambda>a. node.cost (heap s a)) xs)"
    by (rule arg_cong[where f = sum_list], rule map_cong[OF refl]) (simp add: same)
  have cn: "node.cost (heap s2 n) = c" by (simp add: h2)
  have C: "cost ?s3 = sum_list (map (\<lambda>a. node.cost (heap ?s3 a)) (n # xs))"
    using ok e cn by (simp add: f2 shard_ok_def)
  have A: "\<forall>a\<in>set (n # xs). a < fresh ?s3 \<and> 0 \<le> node.cost (heap ?s3 a)"
  proof
    fix a assume "a \<in> set (n # xs)"
    then consider "a = n" | "a \<in> set xs" by auto
    then show "a < fresh ?s3 \<and> 0 \<le> node.cost (heap ?s3 a)"
    proof cases
      case 1 then show ?thesis using c by (simp add: f2 h2 n_def)
    next
      case 2 then show ?thesis using ok same[OF 2] by (simp add: f2 shard_ok_def less_Suc_eq)
    qed
  qed
  have mp: "\<And>k' a. m s k' = Some a \<longleftrightarrow> a \<in> set xs \<and> key (heap s a) = k'"
    using ok by (simp add: shard_ok_def)
  have M: "\<forall>k' a. m ?s3 k' = Some a \<longleftrightarrow> a \<in> set (n # xs) \<and> key (heap ?s3 a) = k'"
  proof (intro allI)
    fix k' a
    show "m ?s3 k' = Some a \<longleftrightarrow> a \<in> set (n # xs) \<and> key (heap ?s3 a) = k'"
    proof (cases "a = n")
      case True
      then show ?thesis using nx mp[of k' n] by (auto simp: f2 h2)
    next
      case False
      have "key (heap s a) \<noteq> k" if "a \<in> set xs" using that mp[of k a] mk by auto
      with False show ?thesis using mp[of k' a] by (auto simp: f2 h2)
    qed
  qed
  have p0: "pol_ok (pol s2) (\<lambda>a. key (heap s2 a)) (set xs)"
    using ok same pol_ok_cong[of "pol s" "\<lambda>a. key (heap s a)" "set xs" "\<lambda>a. key (heap s2 a)"]
    by (simp add: shard_ok_def f2)
  have "pol_ok (pol ?s3) (\<lambda>a. key (heap s2 a)) (insert n (set xs))"
    using p0 nx by (intro pol_ok_OnAdd) simp_all
  then have P: "pol_ok (pol ?s3) (\<lambda>a. key (heap ?s3 a)) (set (n # xs))" by simp
  show "shard_ok ?s3 (n # xs)" unfolding shard_ok_def by (intro conjI D L C A M P)
  show "e \<in> set xs \<and> e \<noteq> n" if "fst (pol_OnAdd n s2) = Some e"
    using pol_OnAdd_candidate[OF p0 that nx] .
qed

lemma sum_list_upd_one:
  fixes f :: "addr \<Rightarrow> int"
  assumes "distinct xs" "n \<in> set xs"
  shows "sum_list (map (\<lambda>a. if a = n then c else f a) xs) = sum_list (map f xs) - f n + c"
  using assms
proof (induction xs)
  case Nil then show ?case by simp
next
  case (Cons x xs)
  show ?case
  proof (cases "x = n")
    case True
    then have "n \<notin> set xs" using Cons.prems by simp
    then have "sum_list (map (\<lambda>a. if a = n then c else f a) xs) = sum_list (map f xs)"
      by (intro arg_cong[where f = sum_list] map_cong[OF refl]) auto
    with True show ?thesis by simp
  next
    case False
    with Cons show ?thesis by simp
  qed
qed

lemma shard_ok_update:
  fixes s :: "('k, 'v) shard" and v :: 'v and ttl :: int
  assumes ok: "shard_ok s xs" and mk: "m s k = Some n" and c: "0 \<le> c"
  defines "s2 \<equiv> s\<lparr>heap := (heap s)(n := (heap s n)\<lparr>val := v, exp := ttl, node.cost := c\<rparr>),
                    cost := cost s + c - node.cost (heap s n)\<rparr>"
  shows "shard_ok s2 xs" and "n \<in> set xs"
proof -
  show n: "n \<in> set xs" using ok mk by (simp add: shard_ok_def)
  have d: "distinct xs" using ok by (simp add: shard_ok_def dll_def)
  have "dll s2 xs = dll s xs" by (rule dll_cong) (simp_all add: s2_def)
  then have D: "dll s2 xs" using ok by (simp add: shard_ok_def)
  have L: "len s2 = int (length xs)" using ok by (simp add: s2_def shard_ok_def)
  have "(\<lambda>a. node.cost (heap s2 a)) = (\<lambda>a. if a = n then c else node.cost (heap s a))"
    by (auto simp: s2_def)
  then have C: "cost s2 = sum_list (map (\<lambda>a. node.cost (heap s2 a)) xs)"
    using ok sum_list_upd_one[OF d n, of c "\<lambda>a. node.cost (heap s a)"]
    by (simp add: shard_ok_def s2_def)
  have A: "\<forall>a\<in>set xs. a < fresh s2 \<and> 0 \<le> node.cost (heap s2 a)"
    using ok c by (auto simp: shard_ok_def s2_def)
  have k: "\<And>a. key (heap s2 a) = key (heap s a)" by (simp add: s2_def)
  have M: "\<forall>k a. m s2 k = Some a \<longleftrightarrow> a \<in> set xs \<and> key (heap s2 a) = k"
    using ok unfolding k by (simp add: shard_ok_def s2_def)
  have P: "pol_ok (pol s2) (\<lambda>a. key (heap s2 a)) (set xs)"
    using ok unfolding k by (simp add: shard_ok_def s2_def)
  show "shard_ok s2 xs" unfolding shard_ok_def by (intro conjI D L C A M P)
qed

lemma only_evicts_refl [simp]: "only_evicts s s"
  by (simp add: only_evicts_def)

lemma only_evicts_trans: "only_evicts s s' \<Longrightarrow> only_evicts s' s'' \<Longrightarrow> only_evicts s s''"
  by (simp add: only_evicts_def)

lemma only_evicts_evictNode [simp]: "only_evicts s (evictNode a r s)"
  by (simp add: only_evicts_def)

lemma shard_ok_tail: "shard_ok s xs \<Longrightarrow> tail s = last_opt xs"
  by (simp add: shard_ok_def dll_def)

lemma shard_ok_distinct: "shard_ok s xs \<Longrightarrow> distinct xs"
  by (simp add: shard_ok_def dll_def)

lemma remove1_last: "distinct xs \<Longrightarrow> xs \<noteq> [] \<Longrightarrow> remove1 (last xs) xs = butlast xs"
  by (cases xs rule: rev_cases) (auto simp: remove1_append)

lemma shard_ok_evict_tail:
  assumes "shard_ok s xs" "xs \<noteq> []"
  shows "backNode s = Some (last xs)" "shard_ok (evictNode (last xs) r s) (butlast xs)"
  using assms shard_ok_evictNode[of s xs "last xs" r] shard_ok_distinct[of s xs]
  by (simp_all add: backNode_def shard_ok_tail last_opt_def remove1_last)

lemma shard_ok_len: "shard_ok s xs \<Longrightarrow> len s = int (length xs)"
  by (simp add: shard_ok_def)

lemma shard_ok_metrics_upd [simp]: "shard_ok (s\<lparr>metrics := x\<rparr>) xs = shard_ok s xs"
  by (simp add: shard_ok_def dll_def)

lemma only_evicts_metrics_upd [simp]: "only_evicts s (s'\<lparr>metrics := x\<rparr>) = only_evicts s s'"
  by (simp add: only_evicts_def)

lemma is_Evict_simps [simp]:
  "is_Evict (Evict r)" "\<not> is_Evict Hit" "\<not> is_Evict Miss" "\<not> is_Evict (Size a b)"
  by (simp_all add: is_Evict_def)

lemma filter_is_Evict_replicate [simp]:
  "filter is_Evict (replicate a (Evict r)) = replicate a (Evict r)"
  by (induction a) auto

lemma shard_ok_fields_cong:
  assumes "heap s' = heap s" "head s' = head s" "tail s' = tail s" "len s' = len s"
    "cost s' = cost s" "fresh s' = fresh s" "m s' = m s" "pol s' = pol s"
  shows "shard_ok s' xs = shard_ok s xs"
  using assms by (simp add: shard_ok_def dll_def)

lemma evictNode_core:
  "heap (evictNode n r s) = heap (removeNode n (pol_OnRemove n s))"
  "head (evictNode n r s) = head (removeNode n (pol_OnRemove n s))"
  "tail (evictNode n r s) = tail (removeNode n (pol_OnRemove n s))"
  "pol (evictNode n r s) = pol (pol_OnRemove n s)"
  "cost (evictNode n r s) =
     (if cost s - node.cost (heap s n) < 0 then 0 else cost s - node.cost (heap s n))"
  by (simp_all add: evictNode_def Let_def)

lemma shard_ok_cost_nonneg: "shard_ok s xs \<Longrightarrow> 0 \<le> cost s"
  using sum_list_nonneg_costs[of xs "\<lambda>a. node.cost (heap s a)"] by (simp add: shard_ok_def)

lemma evictNode_cost_le:
  assumes "shard_ok s xs" "a \<in> set xs"
  shows "cost (evictNode a r s) \<le> cost s"
  using assms shard_ok_cost_nonneg[OF assms(1)] by (auto simp: evictNode_core shard_ok_def)

lemma Remove_ok:
  assumes ok: "shard_ok s xs"
  shows "shard_ok (snd (Remove k s)) (case m s k of None \<Rightarrow> xs | Some n \<Rightarrow> remove1 n xs)"
    and "metrics (snd (Remove k s)) = metrics s" and "evicts (snd (Remove k s)) = evicts s"
    and "cap (snd (Remove k s)) = cap s" and "maxCost (snd (Remove k s)) = maxCost s"
    and "len (snd (Remove k s)) \<le> len s" and "cost (snd (Remove k s)) \<le> cost s"
    and "fst (Remove k s) \<longleftrightarrow> m s k \<noteq> None" and "m (snd (Remove k s)) k = None"
    and "hits (snd (Remove k s)) = hits s \<and> misses (snd (Remove k s)) = misses s"
proof -
  show "metrics (snd (Remove k s)) = metrics s" "evicts (snd (Remove k s)) = evicts s"
    "cap (snd (Remove k s)) = cap s" "maxCost (snd (Remove k s)) = maxCost s"
    "fst (Remove k s) \<longleftrightarrow> m s k \<noteq> None" "m (snd (Remove k s)) k = None"
    "len (snd (Remove k s)) \<le> len s"
    "hits (snd (Remove k s)) = hits s \<and> misses (snd (Remove k s)) = misses s"
    by (simp_all add: Remove_def Let_def split: option.splits)
  show "shard_ok (snd (Remove k s)) (case m s k of None \<Rightarrow> xs | Some n \<Rightarrow> remove1 n xs)"
  proof (cases "m s k")
    case None
    with ok show ?thesis by (simp add: Remove_def)
  next
    case (Some n)
    then have n: "n \<in> set xs" "key (heap s n) = k" using shard_ok_map[OF ok, of k n] by simp_all
    have "shard_ok (snd (Remove k s)) (remove1 n xs) = shard_ok (evictNode n EvictPolicy s) (remove1 n xs)"
      using Some n by (intro shard_ok_fields_cong) (simp_all add: Remove_def Let_def evictNode_core)
    with Some shard_ok_evictNode[OF ok n(1)] show ?thesis by simp
  qed
  show "cost (snd (Remove k s)) \<le> cost s"
  proof (cases "m s k")
    case None then show ?thesis by (simp add: Remove_def)
  next
    case (Some n)
    then have n: "n \<in> set xs" using shard_ok_map[OF ok, of k n] by simp
    have "cost (snd (Remove k s)) = cost (evictNode n EvictPolicy s)"
      using Some by (simp add: Remove_def Let_def evictNode_core)
    with evictNode_cost_le[OF ok n] show ?thesis by simp
  qed
qed

lemma Get_cases:
  "Get k now s =
     (case m s k of
        None \<Rightarrow> (None, s\<lparr>misses := misses s + 1, metrics := metrics s @ [Miss]\<rparr>)
      | Some n \<Rightarrow>
          if exp (heap s n) \<noteq> 0 \<and> now > exp (heap s n)
          then (None, (evictNode n EvictTTL s)
                        \<lparr>misses := misses s + 1, metrics := metrics s @ [Evict EvictTTL, Miss]\<rparr>)
          else (Some (val (heap s n)),
                (pol_OnGet n s)\<lparr>hits := hits s + 1, metrics := metrics s @ [Hit]\<rparr>))"
  by (simp add: Get_def expiredLocked_def Let_def split: option.splits)

lemma shard_ok_counters_upd [simp]:
  "shard_ok (s\<lparr>misses := x\<rparr>) xs = shard_ok s xs"
  "shard_ok (s\<lparr>hits := y\<rparr>) xs = shard_ok s xs"
  by (simp_all add: shard_ok_def dll_def)

lemma shard_ok_dom: 
  assumes "shard_ok s xs"
  shows "dom (m s) = (\<lambda>a. key (heap s a)) ` set xs"
  using shard_ok_map[OF assms] by (auto simp: dom_def image_iff)

lemma shard_ok_card:
  assumes "shard_ok s xs"
  shows "card (dom (m s)) = length xs"
  using shard_ok_dom[OF assms] shard_ok_inj[OF assms] shard_ok_distinct[OF assms]
  by (simp add: card_image distinct_card)

section \<open>The exact effect of limit enforcement\<close>

text \<open>
  The total cost of a list of nodes, and what the two loops of \<^verbatim>\<open>enforceLimitsLocked\<close>
  do to a well-formed shard holding \<open>xs\<close> (MRU first, so the tail is \<open>last xs\<close>): each
  round evicts the last node, so a loop that makes \<open>n\<close> rounds leaves the first
  \<open>length xs - n\<close> nodes.
\<close>

lemma callbacks_evictNode:
  "callbacks (evictNode n r s) =
     callbacks s @ (if onEvict s then [(key (heap s n), val (heap s n), r)] else [])"
  by (simp add: evictNode_def Let_def)

lemma only_evicts_fields:
  assumes "only_evicts s s'"
  shows "cap s' = cap s" "maxCost s' = maxCost s" "onEvict s' = onEvict s"
    "hits s' = hits s" "misses s' = misses s" "fresh s' = fresh s"
    "key (heap s' a) = key (heap s a)" "val (heap s' a) = val (heap s a)"
    "exp (heap s' a) = exp (heap s a)" "node.cost (heap s' a) = node.cost (heap s a)"
  using assms by (simp_all add: only_evicts_def)

lemma drop_butlast_snoc:
  assumes "c < length xs"
  shows "drop c xs = drop c (butlast xs) @ [last xs]"
proof -
  have ne: "xs \<noteq> []" using assms by auto
  have "drop c (butlast xs @ [last xs]) = drop c (butlast xs) @ [last xs]"
    using assms by simp
  with ne show ?thesis by simp
qed

lemma enforceCount_exact:
  assumes "shard_ok s xs"
  shows "shard_ok (enforceCount s) (take (nat (cap s)) xs) \<and> only_evicts s (enforceCount s) \<and>
         metrics (enforceCount s) = metrics s @ replicate (length xs - nat (cap s)) (Evict EvictPolicy) \<and>
         evicts (enforceCount s) = evicts s + (length xs - nat (cap s)) \<and>
         callbacks (enforceCount s) = callbacks s @
           (if onEvict s
            then map (\<lambda>a. (key (heap s a), val (heap s a), EvictPolicy)) (rev (drop (nat (cap s)) xs))
            else [])"
  using assms
proof (induction "length xs" arbitrary: s xs)
  case 0
  then have "backNode s = None" by (simp add: backNode_def shard_ok_tail last_opt_def)
  with 0 show ?case by (subst (1 2 3 4 5) enforceCount.simps) simp
next
  case (Suc k)
  show ?case
  proof (cases "len s > cap s")
    case False
    with Suc.prems have "length xs \<le> nat (cap s)" by (simp add: shard_ok_def)
    with False Suc.prems show ?thesis by (subst (1 2 3 4 5) enforceCount.simps) simp
  next
    case True
    have ne: "xs \<noteq> []" using Suc.hyps(2) by auto
    let ?s' = "evictNode (last xs) EvictPolicy s"
    note et = shard_ok_evict_tail(1)[OF Suc.prems(1) ne]
      shard_ok_evict_tail(2)[OF Suc.prems(1) ne, of EvictPolicy]
    have eq: "enforceCount s = enforceCount ?s'"
      using True et(1) by (subst enforceCount.simps) simp
    have lk: "k = length (butlast xs)" using Suc.hyps(2) by simp
    note ih0 = Suc.hyps(1)[OF lk et(2)]
    have ih: "shard_ok (enforceCount ?s') (take (nat (cap s)) (butlast xs))"
      "only_evicts ?s' (enforceCount ?s')"
      "metrics (enforceCount ?s') =
         metrics s @ Evict EvictPolicy # replicate (length (butlast xs) - nat (cap s)) (Evict EvictPolicy)"
      "evicts (enforceCount ?s') = Suc (evicts s + (length (butlast xs) - nat (cap s)))"
      "callbacks (enforceCount ?s') = callbacks ?s' @
           (if onEvict s
            then map (\<lambda>a. (key (heap s a), val (heap s a), EvictPolicy))
                   (rev (drop (nat (cap s)) (butlast xs)))
            else [])"
      using ih0 by simp_all
    have "int (length xs) > cap s" using True Suc.prems by (simp add: shard_ok_def)
    then have lt: "nat (cap s) < length xs"
      using ne by (cases "cap s < 0") (simp_all add: nat_less_iff)
    then have tk: "take (nat (cap s)) (butlast xs) = take (nat (cap s)) xs"
      by (simp add: take_butlast)
    have rp: "replicate (length xs - nat (cap s)) (Evict EvictPolicy) =
              Evict EvictPolicy # replicate (length (butlast xs) - nat (cap s)) (Evict EvictPolicy)"
      using lt by (cases "length xs - nat (cap s)") (auto simp: Suc_diff_Suc)
    have ev: "length xs - nat (cap s) = Suc (length (butlast xs) - nat (cap s))"
      using lt by simp
    have dr: "rev (drop (nat (cap s)) xs) = last xs # rev (drop (nat (cap s)) (butlast xs))"
      using drop_butlast_snoc[OF lt] by simp
    have oe: "only_evicts s (enforceCount ?s')"
      using only_evicts_trans[of s ?s' "enforceCount ?s'"] ih(2) by simp
    show ?thesis
      unfolding eq
      using ih(1) ih(3) ih(4) ih(5) oe
      by (simp only: tk rp ev dr callbacks_evictNode) simp
  qed
qed

definition total_cost :: "('k, 'v) shard \<Rightarrow> addr list \<Rightarrow> int" where
  "total_cost s xs = sum_list (map (\<lambda>a. node.cost (heap s a)) xs)"

lemma total_cost_only_evicts: "only_evicts s s' \<Longrightarrow> total_cost s' xs = total_cost s xs"
  by (simp add: total_cost_def only_evicts_def)

lemma shard_ok_total_cost: "shard_ok s xs \<Longrightarrow> cost s = total_cost s xs"
  by (simp add: shard_ok_def total_cost_def)

lemma enforceCost_exact:
  assumes "shard_ok s xs"
  shows "\<exists>s' j. enforceCost s = Some s' \<and> j \<le> length xs \<and> shard_ok s' (take j xs) \<and>
           only_evicts s s' \<and>
           metrics s' = metrics s @ replicate (length xs - j) (Evict EvictCapacity) \<and>
           evicts s' = evicts s + (length xs - j) \<and>
           callbacks s' = callbacks s @
             (if onEvict s
              then map (\<lambda>a. (key (heap s a), val (heap s a), EvictCapacity)) (rev (drop j xs))
              else []) \<and>
           (cost s' \<le> maxCost s \<or> j = 0) \<and>
           (\<forall>i. j < i \<and> i \<le> length xs \<longrightarrow> maxCost s < total_cost s (take i xs))"
  using assms
proof (induction "length xs" arbitrary: s xs)
  case 0
  then have "backNode s = None" by (simp add: backNode_def shard_ok_tail last_opt_def)
  then have "enforceCost s = Some s" by (subst enforceCost.simps) simp
  with 0 show ?case by (intro exI[of _ s] exI[of _ 0]) simp
next
  case (Suc k)
  have ne: "xs \<noteq> []" using Suc.hyps(2) by auto
  show ?case
  proof (cases "cost s > maxCost s")
    case False
    then have "enforceCost s = Some s" by (subst enforceCost.simps) simp
    with False Suc.prems ne show ?thesis
      by (intro exI[of _ s] exI[of _ "length xs"]) simp
  next
    case True
    let ?s' = "evictNode (last xs) EvictCapacity s"
    note et = shard_ok_evict_tail(1)[OF Suc.prems(1) ne]
      shard_ok_evict_tail(2)[OF Suc.prems(1) ne, of EvictCapacity]
    have eq: "enforceCost s = enforceCost ?s'"
      using True et(1) by (subst enforceCost.simps) simp
    have lk: "k = length (butlast xs)" using Suc.hyps(2) by simp
    from Suc.hyps(1)[OF lk et(2)] obtain s'' j where
      r0: "enforceCost ?s' = Some s'' \<and> j \<le> length (butlast xs) \<and>
           shard_ok s'' (take j (butlast xs)) \<and> only_evicts ?s' s'' \<and>
           metrics s'' = metrics ?s' @ replicate (length (butlast xs) - j) (Evict EvictCapacity) \<and>
           evicts s'' = evicts ?s' + (length (butlast xs) - j) \<and>
           callbacks s'' = callbacks ?s' @
             (if onEvict ?s'
              then map (\<lambda>a. (key (heap ?s' a), val (heap ?s' a), EvictCapacity))
                     (rev (drop j (butlast xs)))
              else []) \<and>
           (cost s'' \<le> maxCost ?s' \<or> j = 0) \<and>
           (\<forall>i. j < i \<and> i \<le> length (butlast xs) \<longrightarrow>
                maxCost ?s' < total_cost ?s' (take i (butlast xs)))"
      by (elim exE) (rule that)
    have r: "enforceCost ?s' = Some s''" "j \<le> length (butlast xs)"
         "shard_ok s'' (take j (butlast xs))" "only_evicts ?s' s''"
         "metrics s'' = metrics s @ Evict EvictCapacity # replicate (length (butlast xs) - j) (Evict EvictCapacity)"
         "evicts s'' = Suc (evicts s + (length (butlast xs) - j))"
         "callbacks s'' = callbacks ?s' @
             (if onEvict s
              then map (\<lambda>a. (key (heap s a), val (heap s a), EvictCapacity))
                     (rev (drop j (butlast xs)))
              else [])"
         "cost s'' \<le> maxCost s \<or> j = 0"
         "\<forall>i. j < i \<and> i \<le> length (butlast xs) \<longrightarrow>
                maxCost s < total_cost ?s' (take i (butlast xs))"
      using r0 by simp_all
    have jl: "j < length xs" using r(2) ne by (simp add: less_eq_Suc_le[symmetric] Suc.hyps(2)[symmetric])
    have tk: "take j (butlast xs) = take j xs" using jl by (simp add: take_butlast)
    have rp: "replicate (length xs - j) (Evict EvictCapacity) =
              Evict EvictCapacity # replicate (length (butlast xs) - j) (Evict EvictCapacity)"
      using jl by (cases "length xs - j") (auto simp: Suc_diff_Suc)
    have ev: "length xs - j = Suc (length (butlast xs) - j)" using jl by simp
    have dr: "rev (drop j xs) = last xs # rev (drop j (butlast xs))"
      using drop_butlast_snoc[OF jl] by simp
    have oe: "only_evicts s s''" using only_evicts_trans[of s ?s' s''] r(4) by simp
    have al: "maxCost s < total_cost s (take i xs)" if i: "j < i" "i \<le> length xs" for i
    proof (cases "i = length xs")
      case True
      with \<open>cost s > maxCost s\<close> shard_ok_total_cost[OF Suc.prems] show ?thesis by simp
    next
      case False
      with i have il: "i \<le> length (butlast xs)" by simp
      then have "i < length xs" using ne by (simp add: Suc.hyps(2)[symmetric])
      then have a: "take i (butlast xs) = take i xs" by (simp add: take_butlast)
      have b: "total_cost ?s' (take i xs) = total_cost s (take i xs)"
        by (simp add: total_cost_def)
      from r(9) i(1) il have "maxCost s < total_cost ?s' (take i (butlast xs))" by blast
      then show ?thesis by (simp only: a b)
    qed
    have s1: "shard_ok s'' (take j xs)" using r(3) tk by simp
    have s2: "metrics s'' = metrics s @ replicate (length xs - j) (Evict EvictCapacity)"
      using r(5) rp by simp
    have s3: "evicts s'' = evicts s + (length xs - j)" using r(6) ev by simp
    have s4: "callbacks s'' = callbacks s @
             (if onEvict s
              then map (\<lambda>a. (key (heap s a), val (heap s a), EvictCapacity)) (rev (drop j xs))
              else [])"
      using r(7) by (simp only: dr callbacks_evictNode) simp
    have s5: "\<forall>i. j < i \<and> i \<le> length xs \<longrightarrow> maxCost s < total_cost s (take i xs)"
      using al by simp
    show ?thesis
      unfolding eq
      apply (rule exI[of _ s''], rule exI[of _ j])
      using r(1) jl s1 oe s2 s3 s4 r(8) s5 by (intro conjI) simp_all
  qed
qed

lemma shard_ok_cost_len:
  assumes "shard_ok s xs"
  shows "len s = int (length xs)" "cost s = total_cost s xs"
  using assms by (simp_all add: shard_ok_def total_cost_def)

lemma enforceLimitsLocked_exact:
  assumes ok: "shard_ok s xs" and j1: "j1 = min (length xs) (nat (cap s))"
  shows "\<exists>s' j2. enforceLimitsLocked s = Some s' \<and> j2 \<le> j1 \<and> shard_ok s' (take j2 xs) \<and>
           only_evicts s s' \<and>
           (if 0 < maxCost s
            then total_cost s (take j2 xs) \<le> maxCost s \<and>
                 (\<forall>i. j2 < i \<and> i \<le> j1 \<longrightarrow> maxCost s < total_cost s (take i xs))
            else j2 = j1) \<and>
           metrics s' = metrics s @ replicate (length xs - j1) (Evict EvictPolicy) @
                        replicate (j1 - j2) (Evict EvictCapacity) @
                        [Size (int j2) (total_cost s (take j2 xs))] \<and>
           evicts s' = evicts s + (length xs - j2) \<and>
           callbacks s' = callbacks s @
             (if onEvict s
              then map (\<lambda>a. (key (heap s a), val (heap s a), EvictPolicy)) (rev (drop j1 xs)) @
                   map (\<lambda>a. (key (heap s a), val (heap s a), EvictCapacity))
                     (rev (drop j2 (take j1 xs)))
              else [])"
proof -
  let ?s1 = "enforceCount s"
  have t1: "take (nat (cap s)) xs = take j1 xs" and d1: "drop (nat (cap s)) xs = drop j1 xs"
    and l1: "length xs - nat (cap s) = length xs - j1" and jl: "j1 \<le> length xs"
    unfolding j1 by (simp_all add: min_def)
  note c = enforceCount_exact[OF ok, unfolded t1 d1 l1]
  have ok1: "shard_ok ?s1 (take j1 xs)" and oe1: "only_evicts s ?s1"
    and m1: "metrics ?s1 = metrics s @ replicate (length xs - j1) (Evict EvictPolicy)"
    and e1: "evicts ?s1 = evicts s + (length xs - j1)"
    and c1: "callbacks ?s1 = callbacks s @
           (if onEvict s
            then map (\<lambda>a. (key (heap s a), val (heap s a), EvictPolicy)) (rev (drop j1 xs))
            else [])"
    using c by simp_all
  note f1 = only_evicts_fields[OF oe1]
  have lt1: "length (take j1 xs) = j1" using jl by simp
  have tc1: "total_cost ?s1 ys = total_cost s ys" for ys
    using oe1 by (rule total_cost_only_evicts)
  show ?thesis
  proof (cases "0 < maxCost s")
    case False
    let ?s' = "?s1\<lparr>metrics := metrics ?s1 @ [Size (len ?s1) (cost ?s1)]\<rparr>"
    have eq: "enforceLimitsLocked s = Some ?s'"
      using False f1(2) by (simp add: enforceLimitsLocked_def Let_def)
    have sz: "len ?s1 = int j1" "cost ?s1 = total_cost s (take j1 xs)"
      using shard_ok_cost_len[OF ok1] lt1 tc1 by simp_all
    have cb: "callbacks ?s' = callbacks s @
             (if onEvict s
              then map (\<lambda>a. (key (heap s a), val (heap s a), EvictPolicy)) (rev (drop j1 xs)) @
                   map (\<lambda>a. (key (heap s a), val (heap s a), EvictCapacity))
                     (rev (drop j1 (take j1 xs)))
              else [])"
      using c1 by simp
    show ?thesis
      unfolding eq
      apply (rule exI[of _ ?s'], rule exI[of _ j1])
      using ok1 oe1 m1 e1 cb False sz by (intro conjI) simp_all
  next
    case True
    from enforceCost_exact[OF ok1] obtain s2 j where
      r0: "enforceCost ?s1 = Some s2 \<and> j \<le> length (take j1 xs) \<and>
           shard_ok s2 (take j (take j1 xs)) \<and> only_evicts ?s1 s2 \<and>
           metrics s2 = metrics ?s1 @ replicate (length (take j1 xs) - j) (Evict EvictCapacity) \<and>
           evicts s2 = evicts ?s1 + (length (take j1 xs) - j) \<and>
           callbacks s2 = callbacks ?s1 @
             (if onEvict ?s1
              then map (\<lambda>a. (key (heap ?s1 a), val (heap ?s1 a), EvictCapacity))
                     (rev (drop j (take j1 xs)))
              else []) \<and>
           (cost s2 \<le> maxCost ?s1 \<or> j = 0) \<and>
           (\<forall>i. j < i \<and> i \<le> length (take j1 xs) \<longrightarrow>
                maxCost ?s1 < total_cost ?s1 (take i (take j1 xs)))"
      by (elim exE) (rule that)
    have jj: "j \<le> j1" using r0 lt1 by simp
    then have tj: "take j (take j1 xs) = take j xs" by (simp add: min_def)
    have hp: "(\<lambda>a. (key (heap ?s1 a), val (heap ?s1 a), EvictCapacity)) =
              (\<lambda>a. (key (heap s a), val (heap s a), EvictCapacity))"
      by (rule ext) (simp add: f1)
    have r: "enforceCost ?s1 = Some s2" "shard_ok s2 (take j xs)" "only_evicts ?s1 s2"
      "metrics s2 = metrics ?s1 @ replicate (j1 - j) (Evict EvictCapacity)"
      "evicts s2 = evicts ?s1 + (j1 - j)"
      "callbacks s2 = callbacks ?s1 @
             (if onEvict s
              then map (\<lambda>a. (key (heap s a), val (heap s a), EvictCapacity))
                     (rev (drop j (take j1 xs)))
              else [])"
      "cost s2 \<le> maxCost s \<or> j = 0"
      "\<forall>i. j < i \<and> i \<le> j1 \<longrightarrow> maxCost s < total_cost s (take i (take j1 xs))"
      using r0 unfolding lt1 tj hp tc1 f1 by simp_all
    let ?s' = "s2\<lparr>metrics := metrics s2 @ [Size (len s2) (cost s2)]\<rparr>"
    have eq: "enforceLimitsLocked s = Some ?s'"
      using True f1(2) r(1) by (simp add: enforceLimitsLocked_def Let_def)
    have oe: "only_evicts s s2" using only_evicts_trans[OF oe1 r(3)] .
    have tc2: "total_cost s2 ys = total_cost s ys" for ys
      using oe by (rule total_cost_only_evicts)
    have sz: "len s2 = int j" "cost s2 = total_cost s (take j xs)"
      using shard_ok_cost_len[OF r(2)] jj jl tc2 by simp_all
    have le: "total_cost s (take j xs) \<le> maxCost s"
    proof (cases "j = 0")
      case True
      then show ?thesis using \<open>0 < maxCost s\<close> by (simp add: total_cost_def)
    next
      case False
      with r(7) sz(2) show ?thesis by simp
    qed
    have al: "\<forall>i. j < i \<and> i \<le> j1 \<longrightarrow> maxCost s < total_cost s (take i xs)"
    proof (intro allI impI)
      fix i assume i: "j < i \<and> i \<le> j1"
      then have "take i (take j1 xs) = take i xs" by (simp add: min_def)
      with r(8) i show "maxCost s < total_cost s (take i xs)" by auto
    qed
    have mt: "metrics ?s' = metrics s @ replicate (length xs - j1) (Evict EvictPolicy) @
                        replicate (j1 - j) (Evict EvictCapacity) @
                        [Size (int j) (total_cost s (take j xs))]"
      using r(4) m1 sz by simp
    have ev: "evicts ?s' = evicts s + (length xs - j)"
      using r(5) e1 jj jl by simp
    have cb: "callbacks ?s' = callbacks s @
             (if onEvict s
              then map (\<lambda>a. (key (heap s a), val (heap s a), EvictPolicy)) (rev (drop j1 xs)) @
                   map (\<lambda>a. (key (heap s a), val (heap s a), EvictCapacity))
                     (rev (drop j (take j1 xs)))
              else [])"
      using r(6) c1 by simp
    have okf: "shard_ok ?s' (take j xs)" using r(2) by simp
    have oef: "only_evicts s ?s'" using oe by simp
    have cond: "(if 0 < maxCost s
            then total_cost s (take j xs) \<le> maxCost s \<and>
                 (\<forall>i. j < i \<and> i \<le> j1 \<longrightarrow> maxCost s < total_cost s (take i xs))
            else j = j1)"
      using True le al by simp
    show ?thesis
      unfolding eq
      apply (rule exI[of _ ?s'], rule exI[of _ j])
      by (intro conjI refl jj okf oef cond mt ev cb)
  qed
qed


section \<open>What the shard operations do to a shard within its limits\<close>

text \<open>
  \<open>nominates p k\<close>: the policy \<open>p\<close> returns an eviction candidate when a node of key \<open>k\<close> is
  added (LRU never does; 2Q does when the key is no ghost and A1in overflows).
  \<open>shard_inv\<close>: the shard is well formed and within its limits, as every operation leaves
  it (\<open>len = 0\<close> covers a capacity that is not positive). \<open>departed s s'\<close>: the nodes that
  were resident in \<open>s\<close>, or were created on the way to \<open>s'\<close>, and are not resident in
  \<open>s'\<close>. \<open>tally s s' t a b\<close>: on the way from \<open>s\<close> to \<open>s'\<close> the trace grew by \<open>t\<close>
  evictions with reason TTL, then \<open>a\<close> with reason Policy, then \<open>b\<close> with reason Capacity
  (and events that are no evictions), the eviction counter grew by \<open>t + a + b\<close>, and as many
  nodes left as the trace reports; the limits did not change.
\<close>

definition nominates :: "'k ShardPolicy \<Rightarrow> 'k \<Rightarrow> bool" where
  "nominates p k =
     (case p of LRU \<Rightarrow> False
      | TwoQ q \<Rightarrow> k \<notin> ghostIdx q \<and> capIn q < int (length (inList q)) + 1)"

lemma pol_OnAdd_nominates:
  "fst (pol_OnAdd n s) \<noteq> None \<longleftrightarrow> nominates (pol s) (key (heap s n))"
  by (cases "pol s")
     (auto simp: pol_OnAdd_def lru_OnAdd_def twoq_OnAdd_def nominates_def Let_def case_prod_beta)

lemma total_cost_take_le:
  assumes "\<forall>a\<in>set xs. 0 \<le> node.cost (heap s a)"
  shows "total_cost s (take i xs) \<le> total_cost s xs"
proof -
  have "total_cost s xs = total_cost s (take i xs) + total_cost s (drop i xs)"
    unfolding total_cost_def by (simp flip: sum_list_append map_append)
  moreover have "0 \<le> total_cost s (drop i xs)"
    unfolding total_cost_def using assms
    by (intro sum_list_nonneg_costs) (auto dest: in_set_dropD)
  ultimately show ?thesis by simp
qed

lemma shard_ok_costs_nonneg: "shard_ok s xs \<Longrightarrow> \<forall>a\<in>set xs. 0 \<le> node.cost (heap s a)"
  by (simp add: shard_ok_def)

lemma add_new_exact:
  fixes s :: "('k, 'v) shard"
  assumes ok: "shard_ok s xs" and mk: "m s k = None" and c: "0 \<le> c"
  shows "\<exists>s' ys a b. add_new k v ttl c s = Some s' \<and> shard_ok s' ys \<and>
           set ys \<subseteq> insert (fresh s) (set xs) \<and> fresh s' = Suc (fresh s) \<and>
           cap s' = cap s \<and> maxCost s' = maxCost s \<and> onEvict s' = onEvict s \<and>
           hits s' = hits s \<and> misses s' = misses s \<and>
           length ys \<le> nat (cap s) \<and> (0 < maxCost s \<longrightarrow> cost s' \<le> maxCost s) \<and>
           metrics s' = metrics s @ replicate a (Evict EvictPolicy) @
                        replicate b (Evict EvictCapacity) @ [Size (len s') (cost s')] \<and>
           evicts s' = evicts s + (a + b) \<and> length ys + (a + b) = length xs + 1 \<and>
           a = (if nominates (pol s) k then 1 + (length xs - nat (cap s))
                else length xs + 1 - nat (cap s)) \<and>
           (0 < b \<longrightarrow> 0 < maxCost s \<and> maxCost s < cost s + c) \<and>
           (1 \<le> cap s \<and> (0 < maxCost s \<longrightarrow> c \<le> maxCost s) \<longrightarrow>
              m s' k = Some (fresh s) \<and> val (heap s' (fresh s)) = v) \<and>
           (0 < maxCost s \<and> maxCost s < c \<longrightarrow> ys = [])"
proof -
  let ?n = "fresh s"
  let ?s2 = "(snd (new_node k v ttl c s))\<lparr>m := (m (snd (new_node k v ttl c s)))(k \<mapsto> ?n)\<rparr>"
  let ?s3 = "snd (pol_OnAdd ?n ?s2)"
  let ?ev = "fst (pol_OnAdd ?n ?s2)"
  note pre1 = shard_ok_add_pre(1)[OF ok mk c, where v = v and ttl = ttl]
  note pre2 = shard_ok_add_pre(2)[OF ok mk c]
  note pre3 = shard_ok_add_pre(3)[OF ok mk c, where v = v and ttl = ttl]
  have ok3: "shard_ok ?s3 (?n # xs)" using pre1 .
  have f3: "cap ?s3 = cap s" "maxCost ?s3 = maxCost s" "onEvict ?s3 = onEvict s"
    "hits ?s3 = hits s" "misses ?s3 = misses s" "metrics ?s3 = metrics s" "evicts ?s3 = evicts s"
    "fresh ?s3 = Suc (fresh s)"
    by (simp_all add: new_node_def)
  have h3: "node.cost (heap ?s3 ?n) = c" "val (heap ?s3 ?n) = v" "key (heap ?s3 ?n) = k"
    by (simp_all add: new_node_def)
  have c3: "cost ?s3 = cost s + c" by (simp add: new_node_def)
  have nm: "?ev \<noteq> None \<longleftrightarrow> nominates (pol s) k"
    unfolding pol_OnAdd_nominates by (simp add: new_node_def)
  let ?s4 = "case ?ev of Some e \<Rightarrow> evictNode e EvictPolicy ?s3 | None \<Rightarrow> ?s3"
  have eq: "add_new k v ttl c s = enforceLimitsLocked ?s4"
    by (simp add: add_new_def new_node_def Let_def case_prod_beta cong: option.case_cong)
  obtain zs p where
    ok4: "shard_ok ?s4 (?n # zs)" and zs: "length zs + p = length xs" and sub: "set zs \<subseteq> set xs"
    and m4: "metrics ?s4 = metrics s @ replicate p (Evict EvictPolicy)"
    and e4: "evicts ?s4 = evicts s + p" and oe4: "only_evicts ?s3 ?s4"
    and p: "p = (if nominates (pol s) k then 1 else 0)" and c4: "cost ?s4 \<le> cost s + c"
  proof (cases ?ev)
    case None
    show ?thesis
      by (rule that[of xs 0]) (use None ok3 f3 nm c3 in simp_all)
  next
    case (Some e)
    from pre3[OF Some] have e: "e \<in> set xs" "e \<noteq> ?n" by simp_all
    have "shard_ok (evictNode e EvictPolicy ?s3) (remove1 e (?n # xs))"
      using ok3 e by (intro shard_ok_evictNode) simp_all
    with e have o: "shard_ok (evictNode e EvictPolicy ?s3) (?n # remove1 e xs)" by simp
    have l: "length (remove1 e xs) + 1 = length xs" using e by (simp add: length_remove1) (cases xs; simp)
    have cl: "cost (evictNode e EvictPolicy ?s3) \<le> cost ?s3"
      using ok3 by (rule evictNode_cost_le) (use e in simp)
    have sb: "set (remove1 e xs) \<subseteq> set xs" by (rule set_remove1_subset)
    show ?thesis
      by (rule that[of "remove1 e xs" 1]) (use Some o l f3 nm cl c3 sb in simp_all)
  qed
  note g4 = only_evicts_fields[OF oe4]
  define j1 where "j1 = min (length (?n # zs)) (nat (cap ?s4))"
  from enforceLimitsLocked_exact[OF ok4 j1_def] obtain s' j2 where
    r0: "enforceLimitsLocked ?s4 = Some s' \<and> j2 \<le> j1 \<and> shard_ok s' (take j2 (?n # zs)) \<and>
           only_evicts ?s4 s' \<and>
           (if 0 < maxCost ?s4
            then total_cost ?s4 (take j2 (?n # zs)) \<le> maxCost ?s4 \<and>
                 (\<forall>i. j2 < i \<and> i \<le> j1 \<longrightarrow> maxCost ?s4 < total_cost ?s4 (take i (?n # zs)))
            else j2 = j1) \<and>
           metrics s' = metrics ?s4 @ replicate (length (?n # zs) - j1) (Evict EvictPolicy) @
                        replicate (j1 - j2) (Evict EvictCapacity) @
                        [Size (int j2) (total_cost ?s4 (take j2 (?n # zs)))] \<and>
           evicts s' = evicts ?s4 + (length (?n # zs) - j2) \<and>
           callbacks s' = callbacks ?s4 @
             (if onEvict ?s4
              then map (\<lambda>a. (key (heap ?s4 a), val (heap ?s4 a), EvictPolicy)) (rev (drop j1 (?n # zs))) @
                   map (\<lambda>a. (key (heap ?s4 a), val (heap ?s4 a), EvictCapacity))
                     (rev (drop j2 (take j1 (?n # zs))))
              else [])"
    by (elim exE) (rule that)
  have r: "enforceLimitsLocked ?s4 = Some s'" "j2 \<le> j1" "shard_ok s' (take j2 (?n # zs))"
    "only_evicts ?s4 s'"
    "metrics s' = metrics ?s4 @ replicate (length (?n # zs) - j1) (Evict EvictPolicy) @
                        replicate (j1 - j2) (Evict EvictCapacity) @
                        [Size (int j2) (total_cost ?s4 (take j2 (?n # zs)))]"
    "evicts s' = evicts ?s4 + (length (?n # zs) - j2)"
    using r0 by simp_all
  have mc: "0 < maxCost s \<Longrightarrow> total_cost ?s4 (take j2 (?n # zs)) \<le> maxCost s"
    "0 < maxCost s \<Longrightarrow> \<forall>i. j2 < i \<and> i \<le> j1 \<longrightarrow> maxCost s < total_cost ?s4 (take i (?n # zs))"
    "\<not> 0 < maxCost s \<Longrightarrow> j2 = j1"
    using r0 g4(2) f3(2) by (simp_all split: if_splits)
  note g5 = only_evicts_fields[OF r(4)]
  let ?ys = "take j2 (?n # zs)"
  let ?a = "p + (length (?n # zs) - j1)" and ?b = "j1 - j2"
  have j1l: "j1 \<le> length (?n # zs)" "j1 \<le> nat (cap s)"
    unfolding j1_def using g4(1) f3(1) by simp_all
  have ly: "length ?ys = j2" using r(2) j1l by simp
  have tc5: "total_cost s' us = total_cost ?s4 us" for us
    using r(4) by (rule total_cost_only_evicts)
  have sz: "len s' = int j2" "cost s' = total_cost ?s4 ?ys"
    using shard_ok_cost_len[OF r(3)] ly tc5 by simp_all
  have A: "add_new k v ttl c s = Some s'" using eq r(1) by simp
  have B: "set ?ys \<subseteq> insert ?n (set xs)"
    using sub by (auto dest!: in_set_takeD)
  have C: "fresh s' = Suc (fresh s)" "cap s' = cap s" "maxCost s' = maxCost s"
    "onEvict s' = onEvict s" "hits s' = hits s" "misses s' = misses s"
    using g5 g4 f3 by simp_all
  have D: "length ?ys \<le> nat (cap s)" using ly r(2) j1l by simp
  have E: "0 < maxCost s \<longrightarrow> cost s' \<le> maxCost s" using mc(1) sz by simp
  have F: "metrics s' = metrics s @ replicate ?a (Evict EvictPolicy) @
                        replicate ?b (Evict EvictCapacity) @ [Size (len s') (cost s')]"
    using r(5) m4 sz by (simp add: replicate_add)
  have G: "evicts s' = evicts s + (?a + ?b)" using r(6) e4 r(2) j1l by simp
  have H: "length ?ys + (?a + ?b) = length xs + 1" using zs r(2) j1l unfolding ly by simp
  have I: "?a = (if nominates (pol s) k then 1 + (length xs - nat (cap s))
                else length xs + 1 - nat (cap s))"
    using zs p j1l unfolding j1_def g4 f3 by (auto simp: min_def)
  have J: "0 < ?b \<longrightarrow> 0 < maxCost s \<and> maxCost s < cost s + c"
  proof
    assume b: "0 < ?b"
    then have lt: "j2 < j1" by simp
    with mc(3) have pos: "0 < maxCost s" by auto
    from mc(2)[OF pos] lt have "maxCost s < total_cost ?s4 (take j1 (?n # zs))" by simp
    also have "\<dots> \<le> total_cost ?s4 (?n # zs)"
      using shard_ok_costs_nonneg[OF ok4] by (rule total_cost_take_le)
    also have "\<dots> = cost ?s4" using shard_ok_cost_len(2)[OF ok4] by simp
    also have "\<dots> \<le> cost s + c" using c4 .
    finally show "0 < maxCost s \<and> maxCost s < cost s + c" using pos by simp
  qed
  have K: "m s' k = Some ?n \<and> val (heap s' ?n) = v"
    if "1 \<le> cap s" "0 < maxCost s \<longrightarrow> c \<le> maxCost s"
  proof -
    have j1p: "1 \<le> j1" unfolding j1_def g4 f3 using that(1) by simp
    have "1 \<le> j2"
    proof (cases "0 < maxCost s")
      case False with mc(3) j1p show ?thesis by simp
    next
      case True
      show ?thesis
      proof (rule ccontr)
        assume "\<not> 1 \<le> j2"
        then have "j2 < 1 \<and> 1 \<le> j1" using j1p by simp
        with mc(2)[OF True] have "maxCost s < total_cost ?s4 (take 1 (?n # zs))" by blast
        then have "maxCost s < c" using g4(10)[of ?n] h3 by (simp add: total_cost_def)
        with that(2) True show False by simp
      qed
    qed
    then have "?n \<in> set ?ys" by (cases j2) simp_all
    moreover have "key (heap s' ?n) = k" using g5(7)[of ?n] g4(7)[of ?n] h3 by simp
    ultimately have "m s' k = Some ?n" using shard_ok_map[OF r(3), of k ?n] by simp
    moreover have "val (heap s' ?n) = v" using g5(8)[of ?n] g4(8)[of ?n] h3 by simp
    ultimately show ?thesis by simp
  qed
  have L: "0 < maxCost s \<and> maxCost s < c \<longrightarrow> ?ys = []"
  proof
    assume h: "0 < maxCost s \<and> maxCost s < c"
    have "j2 = 0"
    proof (rule ccontr)
      assume "j2 \<noteq> 0"
      then obtain j where j: "j2 = Suc j" by (cases j2) auto
      have nn: "\<forall>a\<in>set (take j zs). 0 \<le> node.cost (heap ?s4 a)"
        using shard_ok_costs_nonneg[OF ok4] by (auto dest: in_set_takeD)
      have "total_cost ?s4 (take j2 (?n # zs)) = c + total_cost ?s4 (take j zs)"
        unfolding j using g4(10)[of ?n] h3(1) by (simp add: total_cost_def)
      moreover have "0 \<le> total_cost ?s4 (take j zs)"
        unfolding total_cost_def using nn by (rule sum_list_nonneg_costs)
      ultimately have "c \<le> total_cost ?s4 (take j2 (?n # zs))" by simp
      with mc(1) h show False by simp
    qed
    then show "?ys = []" by simp
  qed
  show ?thesis
    apply (rule exI[of _ s'], rule exI[of _ ?ys], rule exI[of _ ?a], rule exI[of _ ?b])
    using K by (intro conjI A r(3) B C D E F G H I J L) blast
qed

definition shard_inv :: "('k, 'v) shard \<Rightarrow> bool" where
  "shard_inv s \<longleftrightarrow>
     (\<exists>xs. shard_ok s xs) \<and> (len s \<le> cap s \<or> len s = 0) \<and> (0 < maxCost s \<longrightarrow> cost s \<le> maxCost s)"

definition departed :: "('k, 'v) shard \<Rightarrow> ('k, 'v) shard \<Rightarrow> addr set" where
  "departed s s' = {a. a < fresh s' \<and> (a \<in> ran (m s) \<or> fresh s \<le> a) \<and> a \<notin> ran (m s')}"

definition tally :: "('k, 'v) shard \<Rightarrow> ('k, 'v) shard \<Rightarrow> nat \<Rightarrow> nat \<Rightarrow> nat \<Rightarrow> bool" where
  "tally s s' t a b \<longleftrightarrow>
     ran (m s') \<subseteq> ran (m s) \<union> {fresh s..<fresh s'} \<and> fresh s \<le> fresh s' \<and>
     len s + int (fresh s' - fresh s) = len s' + int (t + a + b) \<and>
     cap s' = cap s \<and> maxCost s' = maxCost s \<and> onEvict s' = onEvict s \<and>
     (\<exists>new. metrics s' = metrics s @ new \<and>
        filter is_Evict new =
          replicate t (Evict EvictTTL) @ replicate a (Evict EvictPolicy) @
          replicate b (Evict EvictCapacity)) \<and>
     evicts s' = evicts s + (t + a + b)"

lemma shard_ok_ran:
  assumes "shard_ok s xs"
  shows "ran (m s) = set xs"
proof (rule set_eqI)
  fix a
  have "a \<in> ran (m s) \<longleftrightarrow> (\<exists>k. m s k = Some a)" by (simp add: ran_def)
  also have "\<dots> \<longleftrightarrow> a \<in> set xs" using shard_ok_map[OF assms] by auto
  finally show "a \<in> ran (m s) \<longleftrightarrow> a \<in> set xs" .
qed

lemma shard_ok_below_fresh: "shard_ok s xs \<Longrightarrow> a \<in> set xs \<Longrightarrow> a < fresh s"
  by (simp add: shard_ok_def)

lemma departed_card:
  assumes ok: "shard_ok s xs" and ok': "shard_ok s' ys"
    and sub: "ran (m s') \<subseteq> ran (m s) \<union> {fresh s..<fresh s'}" and fr: "fresh s \<le> fresh s'"
  shows "int (card (departed s s')) = len s + int (fresh s' - fresh s) - len s'"
proof -
  let ?A = "set xs \<union> {fresh s..<fresh s'}"
  have r: "ran (m s) = set xs" "ran (m s') = set ys"
    using shard_ok_ran[OF ok] shard_ok_ran[OF ok'] by simp_all
  have lt: "\<And>a. a \<in> set xs \<Longrightarrow> a < fresh s" using shard_ok_below_fresh[OF ok] .
  have d: "departed s s' = ?A - set ys"
    unfolding departed_def r using lt fr by (auto dest: less_le_trans)
  have dj: "set xs \<inter> {fresh s..<fresh s'} = {}" using lt by fastforce
  have cA: "card ?A = length xs + (fresh s' - fresh s)"
    using dj shard_ok_distinct[OF ok] by (simp add: card_Un_disjoint distinct_card)
  have sb: "set ys \<subseteq> ?A" using sub unfolding r .
  have "card (?A - set ys) = card ?A - card (set ys)"
    using sb by (intro card_Diff_subset) simp_all
  moreover have "card (set ys) = length ys" using shard_ok_distinct[OF ok'] by (rule distinct_card)
  moreover have "card (set ys) \<le> card ?A" using sb by (intro card_mono) simp_all
  ultimately have "int (card (departed s s')) = int (length xs + (fresh s' - fresh s)) - int (length ys)"
    unfolding d cA by simp
  then show ?thesis using shard_ok_len[OF ok] shard_ok_len[OF ok'] by simp
qed

lemma tally_refl: "tally s s 0 0 0"
  by (simp add: tally_def)

lemma tally_compose:
  assumes "tally s s' t 0 0" "tally s' s'' 0 a b"
  shows "tally s s'' t a b"
proof -
  from assms(1) obtain new where n1: "metrics s' = metrics s @ new"
    "filter is_Evict new = replicate t (Evict EvictTTL)"
    by (auto simp: tally_def)
  from assms(2) obtain new' where n2: "metrics s'' = metrics s' @ new'"
    "filter is_Evict new' = replicate a (Evict EvictPolicy) @ replicate b (Evict EvictCapacity)"
    by (auto simp: tally_def)
  have m: "metrics s'' = metrics s @ (new @ new') \<and>
        filter is_Evict (new @ new') =
          replicate t (Evict EvictTTL) @ replicate a (Evict EvictPolicy) @
          replicate b (Evict EvictCapacity)"
    using n1 n2 by simp
  have f: "fresh s \<le> fresh s'" "fresh s' \<le> fresh s''" using assms by (simp_all add: tally_def)
  have r: "ran (m s'') \<subseteq> ran (m s) \<union> {fresh s..<fresh s''}"
  proof
    fix x assume "x \<in> ran (m s'')"
    then have "x \<in> ran (m s') \<or> x \<in> {fresh s'..<fresh s''}" using assms(2) by (auto simp: tally_def)
    then show "x \<in> ran (m s) \<union> {fresh s..<fresh s''}"
    proof
      assume "x \<in> ran (m s')"
      then have "x \<in> ran (m s) \<or> x \<in> {fresh s..<fresh s'}" using assms(1) by (auto simp: tally_def)
      then show ?thesis using f by auto
    next
      assume "x \<in> {fresh s'..<fresh s''}"
      then show ?thesis using f by auto
    qed
  qed
  have l: "len s + int (fresh s'' - fresh s) = len s'' + int (t + a + b)"
    using assms f by (simp add: tally_def)
  have o: "fresh s \<le> fresh s''" "cap s'' = cap s" "maxCost s'' = maxCost s" "onEvict s'' = onEvict s"
    "evicts s'' = evicts s + (t + a + b)"
    using assms f by (simp_all add: tally_def)
  show ?thesis unfolding tally_def using m by (intro conjI r l o exI[of _ "new @ new'"]) simp_all
qed

lemma shard_inv_len:
  assumes "shard_ok s xs"
  shows "(len s \<le> cap s \<or> len s = 0) \<longleftrightarrow> length xs \<le> nat (cap s)"
proof (cases "0 \<le> cap s")
  case True
  then have "int (length xs) \<le> cap s \<longleftrightarrow> length xs \<le> nat (cap s)" by linarith
  moreover have "length xs = 0 \<longrightarrow> length xs \<le> nat (cap s)" by simp
  ultimately show ?thesis using shard_ok_len[OF assms] True by auto
next
  case False
  then show ?thesis using shard_ok_len[OF assms] by auto
qed

lemma add_new_sum:
  fixes s :: "('k, 'v) shard"
  assumes inv: "shard_inv s" and mk: "m s k = None" and c: "0 \<le> c"
  shows "\<exists>s' a b. add_new k v ttl c s = Some s' \<and> shard_inv s' \<and> tally s s' 0 a b \<and>
           a = (if nominates (pol s) k \<or> cap s \<le> len s then 1 else 0) \<and>
           (0 < b \<longrightarrow> 0 < maxCost s \<and> maxCost s < cost s + c) \<and>
           (1 \<le> cap s \<and> (0 < maxCost s \<longrightarrow> c \<le> maxCost s) \<longrightarrow>
              m s' k = Some (fresh s) \<and> val (heap s' (fresh s)) = v) \<and>
           (0 < maxCost s \<and> maxCost s < c \<longrightarrow> m s' = Map.empty)"
proof -
  from inv obtain xs where ok: "shard_ok s xs" by (auto simp: shard_inv_def)
  have lx: "length xs \<le> nat (cap s)" using inv shard_inv_len[OF ok] by (simp add: shard_inv_def)
  from add_new_exact[OF ok mk c, where v = v and ttl = ttl] obtain s' ys a b where
    r0: "add_new k v ttl c s = Some s' \<and> shard_ok s' ys \<and>
           set ys \<subseteq> insert (fresh s) (set xs) \<and> fresh s' = Suc (fresh s) \<and>
           cap s' = cap s \<and> maxCost s' = maxCost s \<and> onEvict s' = onEvict s \<and>
           hits s' = hits s \<and> misses s' = misses s \<and>
           length ys \<le> nat (cap s) \<and> (0 < maxCost s \<longrightarrow> cost s' \<le> maxCost s) \<and>
           metrics s' = metrics s @ replicate a (Evict EvictPolicy) @
                        replicate b (Evict EvictCapacity) @ [Size (len s') (cost s')] \<and>
           evicts s' = evicts s + (a + b) \<and> length ys + (a + b) = length xs + 1 \<and>
           a = (if nominates (pol s) k then 1 + (length xs - nat (cap s))
                else length xs + 1 - nat (cap s)) \<and>
           (0 < b \<longrightarrow> 0 < maxCost s \<and> maxCost s < cost s + c) \<and>
           (1 \<le> cap s \<and> (0 < maxCost s \<longrightarrow> c \<le> maxCost s) \<longrightarrow>
              m s' k = Some (fresh s) \<and> val (heap s' (fresh s)) = v) \<and>
           (0 < maxCost s \<and> maxCost s < c \<longrightarrow> ys = [])"
    by (elim exE) (rule that)
  have ok': "shard_ok s' ys" using r0 by simp
  have f: "fresh s' = Suc (fresh s)" "cap s' = cap s" "maxCost s' = maxCost s" "onEvict s' = onEvict s"
    using r0 by simp_all
  have inv': "shard_inv s'"
    unfolding shard_inv_def using r0 shard_inv_len[OF ok'] f by auto
  have rn: "ran (m s') \<subseteq> ran (m s) \<union> {fresh s..<fresh s'}"
    unfolding shard_ok_ran[OF ok] shard_ok_ran[OF ok'] f using r0 by auto
  have ln: "len s + int (fresh s' - fresh s) = len s' + int (0 + a + b)"
    using r0 shard_ok_len[OF ok] shard_ok_len[OF ok'] f by simp
  have mt: "\<exists>new. metrics s' = metrics s @ new \<and>
        filter is_Evict new =
          replicate 0 (Evict EvictTTL) @ replicate a (Evict EvictPolicy) @
          replicate b (Evict EvictCapacity)"
    using r0
    by (intro exI[of _ "replicate a (Evict EvictPolicy) @ replicate b (Evict EvictCapacity) @
                          [Size (len s') (cost s')]"]) simp
  have ev: "evicts s' = evicts s + (0 + a + b)" using r0 by simp
  have tr: "tally s s' 0 a b"
    unfolding tally_def using f by (intro conjI rn ln mt ev) simp_all
  have a: "a = (if nominates (pol s) k \<or> cap s \<le> len s then 1 else 0)"
  proof -
    have "cap s \<le> len s \<longleftrightarrow> length xs = nat (cap s)"
      using lx shard_ok_len[OF ok] by auto
    moreover have "a = (if nominates (pol s) k then 1 + (length xs - nat (cap s))
                else length xs + 1 - nat (cap s))" using r0 by simp
    ultimately show ?thesis using lx by auto
  qed
  have em: "0 < maxCost s \<and> maxCost s < c \<longrightarrow> m s' = Map.empty"
  proof
    assume "0 < maxCost s \<and> maxCost s < c"
    with r0 have "ys = []" by simp
    then have n: "\<And>k a. m s' k \<noteq> Some a" using shard_ok_map[OF ok'] by simp
    show "m s' = Map.empty"
    proof (rule ext)
      fix x show "m s' x = None" using n[of x] by (cases "m s' x") auto
    qed
  qed
  show ?thesis
    apply (rule exI[of _ s'], rule exI[of _ a], rule exI[of _ b])
    using r0 by (intro conjI inv' tr a em) simp_all
qed

lemma Set_update_sum:
  fixes s :: "('k, 'v) shard"
  assumes inv: "shard_inv s" and mk: "m s k = Some n" and c: "0 \<le> c"
  shows "\<exists>s' b. Set_shard k v ttl c s = Some s' \<and> shard_inv s' \<and> tally s s' 0 0 b \<and>
           (0 < b \<longrightarrow> 0 < maxCost s \<and> maxCost s < cost s + c)"
proof -
  from inv obtain xs where ok: "shard_ok s xs" by (auto simp: shard_inv_def)
  have lx: "length xs \<le> nat (cap s)" using inv shard_inv_len[OF ok] by (simp add: shard_inv_def)
  let ?s2 = "s\<lparr>heap := (heap s)(n := (heap s n)\<lparr>val := v, exp := ttl, node.cost := c\<rparr>),
                    cost := cost s + c - node.cost (heap s n)\<rparr>"
  define s3 where "s3 = pol_OnUpdate n ?s2"
  define zs where "zs = n # remove1 n xs"
  note u = shard_ok_update(1)[OF ok mk c, where v = v and ttl = ttl]
    shard_ok_update(2)[OF ok mk c]
  have ok3: "shard_ok s3 zs"
    unfolding s3_def zs_def pol_OnUpdate_eq using u by (intro shard_ok_OnGet)
  have eq: "Set_shard k v ttl c s = enforceLimitsLocked s3"
    using mk by (simp add: Set_shard_def Let_def s3_def)
  have f3: "cap s3 = cap s" "maxCost s3 = maxCost s" "onEvict s3 = onEvict s"
    "metrics s3 = metrics s" "evicts s3 = evicts s" "fresh s3 = fresh s"
    "cost s3 = cost s + c - node.cost (heap s n)"
    by (simp_all add: pol_OnUpdate_eq s3_def)
  have l: "length zs = length xs"
    unfolding zs_def using u(2) by (simp add: length_remove1) (cases xs; simp)
  have st: "set zs = set xs" unfolding zs_def using u(2) shard_ok_distinct[OF ok] by auto
  have old: "0 \<le> node.cost (heap s n)" using shard_ok_costs_nonneg[OF ok] u(2) by simp
  define j1 where "j1 = min (length zs) (nat (cap s3))"
  have j1: "j1 = length xs" unfolding j1_def l f3 using lx by simp
  from enforceLimitsLocked_exact[OF ok3 j1_def] obtain s' j2 where
    r1: "enforceLimitsLocked s3 = Some s'" and r2: "j2 \<le> j1" and r3: "shard_ok s' (take j2 zs)"
    and r4: "only_evicts s3 s'"
    and r5: "if 0 < maxCost s3
            then total_cost s3 (take j2 zs) \<le> maxCost s3 \<and>
                 (\<forall>i. j2 < i \<and> i \<le> j1 \<longrightarrow> maxCost s3 < total_cost s3 (take i zs))
            else j2 = j1"
    and r6: "metrics s' = metrics s3 @ replicate (length zs - j1) (Evict EvictPolicy) @
                        replicate (j1 - j2) (Evict EvictCapacity) @
                        [Size (int j2) (total_cost s3 (take j2 zs))]"
    and r7: "evicts s' = evicts s3 + (length zs - j2)"
    by (elim exE conjE) (rule that; assumption)
  have m5: "metrics s' = metrics s @ replicate (j1 - j2) (Evict EvictCapacity) @
                        [Size (int j2) (total_cost s3 (take j2 zs))]"
    using r6 l j1 f3 by simp
  have e5: "evicts s' = evicts s + (j1 - j2)" using r7 l j1 f3 by simp
  have mc: "0 < maxCost s \<Longrightarrow> total_cost s3 (take j2 zs) \<le> maxCost s"
    "0 < maxCost s \<Longrightarrow> \<forall>i. j2 < i \<and> i \<le> j1 \<longrightarrow> maxCost s < total_cost s3 (take i zs)"
    "\<not> 0 < maxCost s \<Longrightarrow> j2 = j1"
    using r5 f3(2) by (simp_all split: if_splits)
  note g = only_evicts_fields[OF r4]
  let ?ys = "take j2 zs"
  let ?b = "j1 - j2"
  have ly: "length ?ys = j2" using r2 j1 l by simp
  have tc5: "total_cost s' us = total_cost s3 us" for us
    using r4 by (rule total_cost_only_evicts)
  have sz: "len s' = int j2" "cost s' = total_cost s3 ?ys"
    using shard_ok_cost_len[OF r3] ly tc5 by simp_all
  have f: "fresh s' = fresh s" "cap s' = cap s" "maxCost s' = maxCost s" "onEvict s' = onEvict s"
    using g f3 by simp_all
  have lc: "length ?ys \<le> nat (cap s)" using ly r2 j1 lx by simp
  have inv': "shard_inv s'"
    unfolding shard_inv_def f using r3 sz(2) mc(1) lc shard_inv_len[OF r3] f
    by (intro conjI exI[of _ ?ys]) simp_all
  have rn: "ran (m s') \<subseteq> ran (m s) \<union> {fresh s..<fresh s'}"
    unfolding shard_ok_ran[OF ok] shard_ok_ran[OF r3] f using st
    by (auto dest!: in_set_takeD)
  have ln: "len s + int (fresh s' - fresh s) = len s' + int (0 + 0 + ?b)"
    using sz shard_ok_len[OF ok] f r2 j1 by simp
  have mt: "\<exists>new. metrics s' = metrics s @ new \<and>
        filter is_Evict new =
          replicate 0 (Evict EvictTTL) @ replicate 0 (Evict EvictPolicy) @
          replicate ?b (Evict EvictCapacity)"
    using m5
    by (intro exI[of _ "replicate ?b (Evict EvictCapacity) @
                          [Size (int j2) (total_cost s3 (take j2 zs))]"]) simp
  have ev: "evicts s' = evicts s + (0 + 0 + ?b)" using e5 by simp
  have tr: "tally s s' 0 0 ?b"
    unfolding tally_def using f by (intro conjI rn ln mt ev) simp_all
  have J: "0 < ?b \<longrightarrow> 0 < maxCost s \<and> maxCost s < cost s + c"
  proof
    assume b: "0 < ?b"
    then have lt: "j2 < j1" by simp
    with mc(3) have pos: "0 < maxCost s" by auto
    from mc(2)[OF pos] lt have "maxCost s < total_cost s3 (take j1 zs)" by simp
    also have "\<dots> \<le> total_cost s3 zs"
      using shard_ok_costs_nonneg[OF ok3] by (rule total_cost_take_le)
    also have "\<dots> = cost s3" using shard_ok_cost_len(2)[OF ok3] by simp
    also have "\<dots> \<le> cost s + c" using f3(7) old by simp
    finally show "0 < maxCost s \<and> maxCost s < cost s + c" using pos by simp
  qed
  show ?thesis
    unfolding eq
    apply (rule exI[of _ s'], rule exI[of _ ?b])
    by (intro conjI r1 inv' tr J)
qed

lemma length_remove1_le: "length (remove1 a xs) \<le> length xs"
  by (simp add: length_remove1)

lemma Get_sum:
  fixes s :: "('k, 'v) shard"
  assumes inv: "shard_inv s"
  shows "shard_inv (snd (Get k now s)) \<and>
         tally s (snd (Get k now s))
           (if \<exists>n. m s k = Some n \<and> exp (heap s n) \<noteq> 0 \<and> exp (heap s n) < now then 1 else 0) 0 0 \<and>
         (fst (Get k now s) = None \<longrightarrow> m (snd (Get k now s)) k = None)"
proof -
  from inv obtain xs where ok: "shard_ok s xs" by (auto simp: shard_inv_def)
  have lx: "length xs \<le> nat (cap s)" using inv shard_inv_len[OF ok] by (simp add: shard_inv_def)
  have mc: "0 < maxCost s \<longrightarrow> cost s \<le> maxCost s" using inv by (simp add: shard_inv_def)
  show ?thesis
  proof (cases "m s k")
    case None
    let ?s' = "s\<lparr>misses := misses s + 1, metrics := metrics s @ [Miss]\<rparr>"
    have eq: "Get k now s = (None, ?s')" using None by (simp add: Get_cases)
    have "shard_ok ?s' xs" using ok by simp
    then have i: "shard_inv ?s'" using inv by (auto simp: shard_inv_def)
    have t: "tally s ?s' 0 0 0" by (simp add: tally_def)
    show ?thesis unfolding eq using i t None by simp
  next
    case (Some n)
    then have n: "n \<in> set xs" "key (heap s n) = k" using shard_ok_map[OF ok, of k n] by simp_all
    show ?thesis
    proof (cases "exp (heap s n) \<noteq> 0 \<and> now > exp (heap s n)")
      case True
      define s1 where "s1 = evictNode n EvictTTL s"
      let ?s' = "s1\<lparr>misses := misses s + 1, metrics := metrics s @ [Evict EvictTTL, Miss]\<rparr>"
      have eq: "Get k now s = (None, ?s')" using Some True by (simp add: Get_cases s1_def)
      have ok1: "shard_ok s1 (remove1 n xs)"
        unfolding s1_def using ok n(1) by (rule shard_ok_evictNode)
      have f1: "cap s1 = cap s" "maxCost s1 = maxCost s" "onEvict s1 = onEvict s"
        "fresh s1 = fresh s" "evicts s1 = evicts s + 1" "len s1 = len s - 1"
        "m s1 = (m s)(k := None)"
        by (simp_all add: s1_def n)
      have c1: "cost s1 \<le> cost s" unfolding s1_def using ok n(1) by (rule evictNode_cost_le)
      have l1: "length (remove1 n xs) \<le> nat (cap s)"
        using length_remove1_le[of n xs] lx by (rule order_trans)
      have ok': "shard_ok ?s' (remove1 n xs)" using ok1 by simp
      have i: "shard_inv ?s'"
        unfolding shard_inv_def using ok' shard_inv_len[OF ok'] l1 f1 c1 mc
        by (intro conjI exI[of _ "remove1 n xs"]) auto
      have rn: "ran (m ?s') \<subseteq> ran (m s) \<union> {fresh s..<fresh ?s'}"
        unfolding shard_ok_ran[OF ok] shard_ok_ran[OF ok'] using set_remove1_subset[of n xs]
        by auto
      have t: "tally s ?s' 1 0 0"
        unfolding tally_def using f1
        by (intro conjI rn exI[of _ "[Evict EvictTTL, Miss]"]) simp_all
      have ex: "\<exists>n. m s k = Some n \<and> exp (heap s n) \<noteq> 0 \<and> exp (heap s n) < now"
        using Some True by simp
      show ?thesis unfolding eq using i t ex f1(7) by simp
    next
      case False
      define s1 where "s1 = pol_OnGet n s"
      let ?s' = "s1\<lparr>hits := hits s + 1, metrics := metrics s @ [Hit]\<rparr>"
      have eq: "Get k now s = (Some (val (heap s n)), ?s')"
        using Some False by (simp add: Get_cases s1_def)
      have ok1: "shard_ok s1 (n # remove1 n xs)"
        unfolding s1_def using ok n(1) by (rule shard_ok_OnGet)
      have f1: "cap s1 = cap s" "maxCost s1 = maxCost s" "onEvict s1 = onEvict s"
        "fresh s1 = fresh s" "evicts s1 = evicts s" "len s1 = len s" "cost s1 = cost s"
        by (simp_all add: s1_def)
      have ok': "shard_ok ?s' (n # remove1 n xs)" using ok1 by simp
      have i: "shard_inv ?s'"
        unfolding shard_inv_def using ok' inv f1
        by (intro conjI exI[of _ "n # remove1 n xs"]) (simp_all add: shard_inv_def)
      have st: "set (n # remove1 n xs) \<subseteq> set xs" using n(1) set_remove1_subset[of n xs] by auto
      have rn: "ran (m ?s') \<subseteq> ran (m s) \<union> {fresh s..<fresh ?s'}"
        unfolding shard_ok_ran[OF ok] shard_ok_ran[OF ok'] using st by blast
      have t: "tally s ?s' 0 0 0"
        unfolding tally_def using f1
        by (intro conjI rn exI[of _ "[Hit]"]) simp_all
      have ex: "\<not> (\<exists>n. m s k = Some n \<and> exp (heap s n) \<noteq> 0 \<and> exp (heap s n) < now)"
        using Some False by simp
      show ?thesis unfolding eq using i t ex by auto
    qed
  qed
qed

lemma Remove_sum:
  fixes s :: "('k, 'v) shard"
  assumes inv: "shard_inv s"
  shows "shard_inv (snd (Remove k s))"
    and "departed s (snd (Remove k s)) = (case m s k of None \<Rightarrow> {} | Some n \<Rightarrow> {n})"
    and "fresh (snd (Remove k s)) = fresh s" "onEvict (snd (Remove k s)) = onEvict s"
proof -
  from inv obtain xs where ok: "shard_ok s xs" by (auto simp: shard_inv_def)
  have lx: "length xs \<le> nat (cap s)" using inv shard_inv_len[OF ok] by (simp add: shard_inv_def)
  have mc: "0 < maxCost s \<longrightarrow> cost s \<le> maxCost s" using inv by (simp add: shard_inv_def)
  let ?s' = "snd (Remove k s)"
  let ?ys = "case m s k of None \<Rightarrow> xs | Some n \<Rightarrow> remove1 n xs"
  note r = Remove_ok[OF ok, of k]
  show fr: "fresh ?s' = fresh s" "onEvict ?s' = onEvict s"
    by (simp_all add: Remove_def Let_def split: option.splits)
  have ly: "length ?ys \<le> nat (cap s)"
    using lx order_trans[OF length_remove1_le lx] by (simp split: option.splits)
  show "shard_inv ?s'"
    unfolding shard_inv_def using r(1) shard_inv_len[OF r(1)] ly r(4) r(5) r(7) mc
    by (intro conjI exI[of _ ?ys]) auto
  show "departed s ?s' = (case m s k of None \<Rightarrow> {} | Some n \<Rightarrow> {n})"
  proof (cases "m s k")
    case None
    then show ?thesis
      unfolding departed_def shard_ok_ran[OF ok] shard_ok_ran[OF r(1)] fr by auto
  next
    case (Some n)
    then have n: "n \<in> set xs" using shard_ok_map[OF ok, of k n] by simp
    have "set xs - set (remove1 n xs) = {n}"
      using n shard_ok_distinct[OF ok] by auto
    then show ?thesis
      unfolding departed_def shard_ok_ran[OF ok] shard_ok_ran[OF r(1)] fr
      using Some shard_ok_below_fresh[OF ok] by auto
  qed
qed




section \<open>The calling discipline of the 2Q policy\<close>

text \<open>
  The calling discipline of the shard, for a 2Q policy instance \<open>q\<close> bound to a shard \<open>s\<close>
  with resident nodes \<open>R\<close>: \<^verbatim>\<open>OnAdd\<close> is called on a node that is not resident and whose
  key no resident node has, after which the node is resident; \<^verbatim>\<open>OnGet\<close> and
  \<^verbatim>\<open>OnUpdate\<close> are called on resident nodes; \<^verbatim>\<open>OnRemove\<close> is called on a resident node,
  which is not resident afterwards. Between callbacks the shard may change anything but
  the keys of the resident nodes.
\<close>

inductive disciplined :: "addr set \<Rightarrow> 'k twoQ \<Rightarrow> ('k, 'v) shard \<Rightarrow> bool" where
  d_new: "disciplined {} (twoq_New ci cg) s"
| d_add: "disciplined R q s \<Longrightarrow> n \<notin> R \<Longrightarrow> \<forall>a\<in>R. key (heap s a) \<noteq> key (heap s n) \<Longrightarrow>
          disciplined (insert n R) (fst (snd (twoq_OnAdd q n s))) (snd (snd (twoq_OnAdd q n s)))"
| d_get: "disciplined R q s \<Longrightarrow> n \<in> R \<Longrightarrow>
          disciplined R (fst (twoq_OnGet q n s)) (snd (twoq_OnGet q n s))"
| d_update: "disciplined R q s \<Longrightarrow> n \<in> R \<Longrightarrow>
          disciplined R (fst (twoq_OnUpdate q n s)) (snd (twoq_OnUpdate q n s))"
| d_remove: "disciplined R q s \<Longrightarrow> n \<in> R \<Longrightarrow> disciplined (R - {n}) (twoq_OnRemove q n s) s"
| d_shard: "disciplined R q s \<Longrightarrow> \<forall>a\<in>R. key (heap s' a) = key (heap s a) \<Longrightarrow> disciplined R q s'"

lemma twoq_OnAdd_shard: "snd (snd (twoq_OnAdd q n s)) = insertFront n s"
  by (simp add: twoq_OnAdd_def Let_def split: list.splits)

lemma twoq_OnGet_shard: "snd (twoq_OnGet q n s) = moveToFront n s"
  by (simp add: twoq_OnGet_def Let_def)

lemma ok_transfer:
  assumes "twoq_ok q (\<lambda>a. key (heap s a)) R" "inj_on (\<lambda>a. key (heap s a)) R"
    and "\<And>a. key (heap s' a) = key (heap s a)"
  shows "twoq_ok q (\<lambda>a. key (heap s' a)) R \<and> inj_on (\<lambda>a. key (heap s' a)) R"
proof
  show "twoq_ok q (\<lambda>a. key (heap s' a)) R"
    using assms(1) by (rule twoq_ok_cong) (simp add: assms(3))
  show "inj_on (\<lambda>a. key (heap s' a)) R"
    using assms(2) by (simp add: inj_on_def assms(3))
qed

lemma disciplined_ok:
  assumes "disciplined R q s"
  shows "twoq_ok q (\<lambda>a. key (heap s a)) R \<and> inj_on (\<lambda>a. key (heap s a)) R"
  using assms
proof (induction rule: disciplined.induct)
  case (d_new ci cg s)
  show ?case by (simp add: twoq_ok_def twoq_New_def)
next
  case (d_add R q s n)
  let ?kf = "\<lambda>a. key (heap s a)"
  have ih: "twoq_ok q ?kf R" "inj_on ?kf R" using d_add.IH by simp_all
  have nR: "n \<notin> R" and dk: "\<forall>a\<in>R. ?kf a \<noteq> ?kf n" using d_add.hyps by simp_all
  have 1: "twoq_ok (fst (snd (twoq_OnAdd q n s))) ?kf (insert n R)"
    using ih(1) nR by (rule twoq_ok_OnAdd) simp
  have "?kf n \<notin> ?kf ` (R - {n})" using dk by (simp add: image_iff) fastforce
  with ih(2) have 2: "inj_on ?kf (insert n R)" by (simp only: inj_on_insert) simp
  show ?case using 1 2 by (rule ok_transfer) (simp add: twoq_OnAdd_shard)
next
  case (d_get R q s n)
  let ?kf = "\<lambda>a. key (heap s a)"
  have ih: "twoq_ok q ?kf R" "inj_on ?kf R" using d_get.IH by simp_all
  show ?case using twoq_ok_OnGet[OF ih(1), of n s] ih(2)
    by (rule ok_transfer) (simp add: twoq_OnGet_shard)
next
  case (d_update R q s n)
  let ?kf = "\<lambda>a. key (heap s a)"
  have ih: "twoq_ok q ?kf R" "inj_on ?kf R" using d_update.IH by simp_all
  have "twoq_ok (fst (twoq_OnUpdate q n s)) ?kf R"
    using twoq_ok_OnGet[OF ih(1), of n s] by (simp add: twoq_OnUpdate_def)
  then show ?case using ih(2)
    by (rule ok_transfer) (simp add: twoq_OnGet_shard twoq_OnUpdate_def)
next
  case (d_remove R q s n)
  let ?kf = "\<lambda>a. key (heap s a)"
  have ih: "twoq_ok q ?kf R" "inj_on ?kf R" using d_remove.IH by simp_all
  have nR: "n \<in> R" using d_remove.hyps by simp
  have 1: "twoq_ok (twoq_OnRemove q n s) ?kf (R - {n})"
    using ih nR by (rule twoq_ok_OnRemove) simp
  have 2: "inj_on ?kf (R - {n})" using ih(2) by (rule inj_on_diff)
  show ?case using 1 2 by simp
next
  case (d_shard R q s s')
  let ?kf = "\<lambda>a. key (heap s a)" and ?kf' = "\<lambda>a. key (heap s' a)"
  have ih: "twoq_ok q ?kf R" "inj_on ?kf R" using d_shard.IH by simp_all
  have e: "\<And>a. a \<in> R \<Longrightarrow> ?kf' a = ?kf a" using d_shard.hyps by simp
  have 1: "twoq_ok q ?kf' R" using ih(1) e by (rule twoq_ok_cong)
  have 2: "inj_on ?kf' R" using ih(2) e by (simp add: inj_on_def)
  show ?case using 1 2 by simp
qed

section \<open>Word arithmetic of the cache\<close>

text \<open>
  Facts about the 64-bit arithmetic of \<^verbatim>\<open>New\<close>, \<^verbatim>\<open>getShard\<close> and \<^verbatim>\<open>costOf\<close>.
\<close>

lemma shift_mod_cases:
  fixes u M :: int
  assumes "0 \<le> u" "u < 2 * M"
  shows "(u + M) mod (2 * M) - M = (if u < M then u else u - 2 * M)"
proof (cases "u < M")
  case True
  have "0 \<le> u + M" using assms True by linarith
  moreover have "u + M < 2 * M" using True by linarith
  ultimately have "(u + M) mod (2 * M) = u + M" by (rule mod_pos_pos_trivial)
  with True show ?thesis by simp
next
  case False
  have "u + M = (u - M) + 2 * M" by simp
  then have "(u + M) mod (2 * M) = ((u - M) + 2 * M) mod (2 * M)" by (rule arg_cong)
  also have "\<dots> = (u - M) mod (2 * M)" by (rule mod_add_self2)
  also have "\<dots> = u - M"
  proof (rule mod_pos_pos_trivial)
    show "0 \<le> u - M" using False by linarith
    show "u - M < 2 * M" using assms False by linarith
  qed
  finally show ?thesis using False by simp
qed

lemma sint_cases64:
  fixes w :: "64 word"
  shows "sint w = (if uint w < 2 ^ 63 then uint w else uint w - 2 ^ 64)"
proof -
  define M :: int where "M = 2 ^ 63"
  have s64: "Suc 63 = 64" by simp
  have e: "(2::int) ^ 64 = 2 * M" by (simp add: M_def)
  have b: "0 \<le> uint w" "uint w < 2 * M" using uint_lt2p[of w] by (simp_all add: M_def)
  have "sint w = signed_take_bit 63 (uint w)" by (simp add: sint_uint)
  also have "\<dots> = take_bit (Suc 63) (uint w + 2 ^ 63) - 2 ^ 63"
    by (simp only: signed_take_bit_eq_take_bit_shift)
  also have "\<dots> = take_bit 64 (uint w + 2 ^ 63) - 2 ^ 63"
    using s64 by (simp only:)
  also have "\<dots> = (uint w + M) mod (2 * M) - M"
    by (simp only: take_bit_eq_mod e M_def)
  also have "\<dots> = (if uint w < M then uint w else uint w - 2 * M)"
    using b by (rule shift_mod_cases)
  finally show ?thesis by (simp only: e M_def)
qed

lemma uint_unat64: "uint (w :: 64 word) = int (unat w)"
  by simp

lemma sint_small:
  fixes w :: "64 word"
  assumes "unat w < 2 ^ 63"
  shows "sint w = int (unat w)"
proof -
  have "int (unat w) < int (2 ^ 63)" using assms by (simp only: of_nat_less_iff)
  then have "uint w < 2 ^ 63" by (simp only: uint_unat64 of_nat_power of_nat_numeral)
  then have "sint w = uint w" using sint_cases64[of w] by (simp only: if_True)
  then show ?thesis by (simp only: uint_unat64)
qed

lemma sint_eq_0_iff64:
  fixes w :: "64 word"
  shows "sint w = 0 \<longleftrightarrow> w = 0"
proof
  assume "w = 0" then show "sint w = 0" by simp
next
  assume s: "sint w = 0"
  have b: "uint w < 2 ^ 64" using uint_lt2p[of w] by simp
  have "uint w = 0"
  proof (cases "uint w < 2 ^ 63")
    case True
    then have "sint w = uint w" using sint_cases64[of w] by (simp only: if_True)
    with s show ?thesis by simp
  next
    case False
    then have "sint w = uint w - 2 ^ 64" using sint_cases64[of w] by (simp only: if_False)
    with s b show ?thesis by linarith
  qed
  then show "w = 0" by (simp add: uint_0_iff)
qed

lemma unat_of_pos_sint:
  fixes w :: "64 word"
  assumes "0 < sint w"
  shows "int (unat w) = sint w" "0 < unat w" "unat w < 2 ^ 63"
proof -
  have b: "uint w < 2 ^ 64" using uint_lt2p[of w] by simp
  have u: "uint w < 2 ^ 63"
  proof (rule ccontr)
    assume "\<not> uint w < 2 ^ 63"
    then have "sint w = uint w - 2 ^ 64" using sint_cases64[of w] by (simp only: if_False)
    with b assms show False by linarith
  qed
  then have s: "sint w = uint w" using sint_cases64[of w] by (simp only: if_True)
  show e: "int (unat w) = sint w" using s by (simp only: uint_unat64)
  show "0 < unat w" using assms e by linarith
  have "int (unat w) < int (2 ^ 63)" using u by (simp only: uint_unat64 of_nat_power of_nat_numeral)
  then show "unat w < 2 ^ 63" by (simp only: of_nat_less_iff)
qed

lemma getShard_Some:
  assumes "0 < length (shards c)" "length (shards c) \<le> 2 ^ 63"
  shows "\<exists>i. getShard c k = Some (i, shards c ! i) \<and> i < length (shards c)"
proof -
  define L where "L = length (shards c)"
  define mask :: "64 word" where "mask = word_of_nat L - 1"
  define w where "w = hash c k AND mask"
  have L63: "L \<le> 2 ^ 63" "0 < L" using assms by (simp_all add: L_def)
  have "(2::nat) ^ 63 < 2 ^ 64" by simp
  with L63 have L64: "L < 2 ^ 64" by linarith
  have uL: "unat (word_of_nat L :: 64 word) = L"
    using L64 by (simp add: unat_of_nat)
  have "(word_of_nat L :: 64 word) \<noteq> 0"
  proof
    assume "(word_of_nat L :: 64 word) = 0"
    then have "unat (word_of_nat L :: 64 word) = 0" by simp
    with uL L63 show False by simp
  qed
  then have "unat mask = unat (word_of_nat L :: 64 word) - 1"
    unfolding mask_def by (rule unat_minus_one)
  then have um: "unat mask = L - 1" by (simp only: uL)
  have "w \<le> mask" unfolding w_def by (rule word_and_le1)
  then have "unat w \<le> unat mask" by (simp only: word_le_nat_alt)
  then have le: "unat w \<le> L - 1" by (simp only: um)
  then have lt: "unat w < L" using L63 by linarith
  have "unat w < 2 ^ 63" using lt L63 by linarith
  then have s: "sint w = int (unat w)" by (rule sint_small)
  have g: "getShard c k = (if 0 \<le> sint w \<and> sint w < int L then Some (nat (sint w), shards c ! nat (sint w)) else None)"
    by (simp only: getShard_def Let_def w_def mask_def L_def)
  have il: "int (unat w) < int L" using lt by (simp only: of_nat_less_iff)
  have "getShard c k = Some (nat (int (unat w)), shards c ! nat (int (unat w)))"
    unfolding g s using il by (simp only: of_nat_0_le_iff simp_thms if_True)
  then have "getShard c k = Some (unat w, shards c ! unat w)" by (simp only: nat_int)
  then show ?thesis using lt by (intro exI[of _ "unat w"]) (simp add: L_def)
qed

lemma NextPow2_nonzero: "NextPow2 x \<noteq> 0"
  by (simp add: NextPow2_def Let_def)

lemma shardCount_pos:
  assumes "\<not> shardCount procs op <s 0"
  shows "0 < sint (shardCount procs op)"
proof -
  have "shardCount procs op \<noteq> 0"
    using NextPow2_nonzero[of "2 * procs"] NextPow2_nonzero[of "Shards op"]
    by (simp add: shardCount_def Let_def)
  then have "sint (shardCount procs op) \<noteq> 0" by (simp only: sint_eq_0_iff64 not_False_eq_True)
  moreover have "0 \<le> sint (shardCount procs op)" using assms by (simp add: word_sless_alt)
  ultimately show ?thesis by linarith
qed

lemma sint_word_of_int_small:
  assumes "- (2 ^ 63) \<le> x" "x < 2 ^ 63"
  shows "sint (word_of_int x :: 64 word) = x"
proof -
  have "sint (word_of_int x :: 64 word) = signed_take_bit 63 x" by (simp add: sint_sbintrunc')
  also have "\<dots> = x" using assms by (rule signed_take_bit_int_eq_self)
  finally show ?thesis .
qed

lemma perShardCap_ceil:
  fixes C sh :: "64 word"
  assumes "0 < sint C" "0 < sint sh" "sint C + sint sh \<le> 2 ^ 63"
  shows "sint (go_div (C + sh - 1) sh) = (sint C + sint sh - 1) div sint sh"
    and "1 \<le> sint (go_div (C + sh - 1) sh)"
proof -
  define A where "A = sint C + sint sh - 1"
  define B where "B = sint sh"
  have AB: "0 < B" "B \<le> A" "A < 2 ^ 63" using assms by (simp_all add: A_def B_def)
  have w: "C + sh - 1 = word_of_int A" by (simp add: A_def)
  have sA: "sint (C + sh - 1) = A"
    unfolding w using AB by (intro sint_word_of_int_small) linarith+
  have sd: "A sdiv B = A div B"
    using AB by (simp add: signed_divide_int_def sgn_if)
  have q: "0 < A div B" using AB by (simp add: pos_imp_zdiv_pos_iff)
  have qu: "A div B \<le> A" using AB by (intro int_div_le_self) linarith
  have "sint (go_div (C + sh - 1) sh) = sint (word_of_int (A div B) :: 64 word)"
    by (simp only: go_div_def sA sd B_def[symmetric])
  also have "\<dots> = A div B" using q qu AB by (intro sint_word_of_int_small) linarith+
  finally have r: "sint (go_div (C + sh - 1) sh) = A div B" .
  show "sint (go_div (C + sh - 1) sh) = (sint C + sint sh - 1) div sint sh"
    using r by (simp only: A_def B_def)
  show "1 \<le> sint (go_div (C + sh - 1) sh)" using r q by linarith
qed

lemma costOf_range: "0 \<le> sint (costOf c v) \<and> sint (costOf c v) \<le> 2147483647"
proof (cases "Cost (opt c)")
  case None
  then show ?thesis by (simp add: costOf_def)
next
  case (Some f)
  have a: "sint (2147483647 :: 64 word) = 2147483647" by simp
  show ?thesis
    using Some a by (simp add: costOf_def Let_def word_sless_alt)
qed

section \<open>Caches built by New and run through public operations\<close>

text \<open>
  \<open>cache_inv\<close> holds of the cache \<^verbatim>\<open>New\<close> returns and after every public operation: every
  shard is within its limits, there is at least one shard and at most \<open>2^63\<close>, and no load
  is in flight. Every operation returns from such a cache.
\<close>

definition cache_inv :: "('k, 'v, 'e) cache \<Rightarrow> bool" where
  "cache_inv c \<longleftrightarrow>
     (\<forall>s \<in> set (shards c). shard_inv s) \<and>
     0 < length (shards c) \<and> length (shards c) \<le> 2 ^ 63 \<and> sf c = {}"

lemma newShard_ok: "shard_ok (newShard z procs capacity p op) []"
  by (cases p)
     (simp_all add: shard_ok_def dll_def newShard_def Let_def first_opt_def last_opt_def
        pol_ok_def Policy_New_def twoq_ok_def twoq_New_def)

lemma newShard_fields:
  "len (newShard z procs capacity p op) = 0" "cost (newShard z procs capacity p op) = 0"
  "cap (newShard z procs capacity p op) = sint capacity"
  by (simp_all add: newShard_def Let_def)

lemma newShard_inv: "shard_inv (newShard z procs capacity p op)"
proof -
  let ?s = "newShard z procs capacity p op"
  have "0 < maxCost ?s \<longrightarrow> cost ?s \<le> maxCost ?s" by (simp add: newShard_fields)
  then show ?thesis
    unfolding shard_inv_def using newShard_ok[of z procs capacity p op]
    by (intro conjI exI[of _ "[]"]) (simp_all add: newShard_fields)
qed

lemma New_shards:
  assumes "New z procs hashf op = Inr c"
  shows "\<not> Capacity op \<le>s 0" "\<not> shardCount procs op <s 0"
    and "shards c =
           replicate (unat (shardCount procs op))
             (newShard z procs (go_div (Capacity op + shardCount procs op - 1) (shardCount procs op))
                (case Policy op of None \<Rightarrow> PolicyLRU | Some p \<Rightarrow> p) op)"
    and "sf c = {}" "closed c = False" "opt c = op" "hash c = hashf"
  using assms by (auto simp: New_def Let_def split: if_splits)

lemma New_inv:
  assumes "New z procs hashf op = Inr c"
  shows "cache_inv c"
proof -
  note n = New_shards[OF assms]
  have p: "0 < sint (shardCount procs op)" using n(2) by (rule shardCount_pos)
  note u = unat_of_pos_sint[OF p]
  have l: "length (shards c) = unat (shardCount procs op)" using n(3) by simp
  have "\<forall>s \<in> set (shards c). shard_inv s"
    unfolding n(3) by (simp add: newShard_inv)
  then show ?thesis
    unfolding cache_inv_def l using u n(4) by simp
qed

lemma getShard_inv:
  assumes "cache_inv c"
  shows "\<exists>i. getShard c k = Some (i, shards c ! i) \<and> i < length (shards c) \<and>
             shard_inv (shards c ! i)"
proof -
  have a: "0 < length (shards c)" "length (shards c) \<le> 2 ^ 63"
    using assms by (simp_all add: cache_inv_def)
  from getShard_Some[OF a, of k] obtain i where
    i: "getShard c k = Some (i, shards c ! i)" "i < length (shards c)" by blast
  then have "shards c ! i \<in> set (shards c)" by simp
  then have "shard_inv (shards c ! i)" using assms by (simp add: cache_inv_def)
  with i show ?thesis by blast
qed

lemma cache_inv_upd:
  assumes "cache_inv c" "shard_inv s'"
  shows "cache_inv (c\<lparr>shards := (shards c)[i := s']\<rparr>)"
proof -
  have "set ((shards c)[i := s']) \<subseteq> insert s' (set (shards c))"
    by (rule set_update_subset_insert)
  then have "\<forall>s \<in> set ((shards c)[i := s']). shard_inv s"
    using assms by (auto simp: cache_inv_def)
  then show ?thesis using assms(1) by (simp add: cache_inv_def)
qed

lemma getShard_frame [simp]:
  "getShard (c\<lparr>sf := x\<rparr>) k = getShard c k"
  "getShard (c\<lparr>closed := y\<rparr>) k = getShard c k"
  by (simp_all add: getShard_def Let_def)

lemma costOf_frame [simp]:
  "costOf (c\<lparr>sf := x\<rparr>) v = costOf c v"
  "costOf (c\<lparr>shards := y\<rparr>) v = costOf c v"
  by (simp_all add: costOf_def)

lemma Set_shard_sum:
  fixes s :: "('k, 'v) shard"
  assumes inv: "shard_inv s" and c: "0 \<le> c"
  shows "\<exists>s' a b. Set_shard k v ttl c s = Some s' \<and> shard_inv s' \<and> tally s s' 0 a b \<and>
           a = (if m s k = None \<and> (nominates (pol s) k \<or> cap s \<le> len s) then 1 else 0) \<and>
           (0 < b \<longrightarrow> 0 < maxCost s \<and> maxCost s < cost s + c)"
proof (cases "m s k")
  case None
  from add_new_sum[OF inv None c, where v = v and ttl = ttl] obtain s' a b where
    r: "add_new k v ttl c s = Some s'" "shard_inv s'" "tally s s' 0 a b"
     "a = (if nominates (pol s) k \<or> cap s \<le> len s then 1 else 0)"
     "0 < b \<longrightarrow> 0 < maxCost s \<and> maxCost s < cost s + c"
    by blast
  have "Set_shard k v ttl c s = Some s'" using None r(1) by (simp add: Set_shard_def)
  with r None show ?thesis by (intro exI[of _ s'] exI[of _ a] exI[of _ b]) simp
next
  case (Some n)
  from Set_update_sum[OF inv Some c, where v = v and ttl = ttl] obtain s' b where
    r: "Set_shard k v ttl c s = Some s'" "shard_inv s'" "tally s s' 0 0 b"
      "0 < b \<longrightarrow> 0 < maxCost s \<and> maxCost s < cost s + c"
    by blast
  with Some show ?thesis by (intro exI[of _ s'] exI[of _ 0] exI[of _ b]) simp
qed

definition expired_in :: "('k, 'v) shard \<Rightarrow> 'k \<Rightarrow> int \<Rightarrow> bool" where
  "expired_in s k now = (case m s k of None \<Rightarrow> False | Some n \<Rightarrow> expiredLocked now n s)"

lemma expired_in_alt:
  "expired_in s k now \<longleftrightarrow> (\<exists>n. m s k = Some n \<and> exp (heap s n) \<noteq> 0 \<and> exp (heap s n) < now)"
  by (simp add: expired_in_def expiredLocked_def split: option.splits)

lemma getShard_upd:
  assumes "getShard c k = Some (i, s)" "i < length (shards c)"
  shows "getShard (c\<lparr>shards := (shards c)[i := s']\<rparr>) k = Some (i, s')"
  using assms by (auto simp: getShard_def Let_def split: if_splits)

lemma cache_upd_id: "i < length (shards c) \<Longrightarrow> c\<lparr>shards := (shards c)[i := shards c ! i]\<rparr> = c"
  by simp

lemma cache_Set_gen:
  fixes c :: "('k, 'v, 'e) cache"
  assumes inv: "cache_inv c"
    and op: "f = (\<lambda>c. case getShard c k of None \<Rightarrow> None
                 | Some (i, s) \<Rightarrow>
                     (case Set_shard k v ttl (sint (costOf c v)) s of None \<Rightarrow> None
                      | Some s' \<Rightarrow> Some (c\<lparr>shards := (shards c)[i := s']\<rparr>)))"
  shows "\<exists>i s' a b. getShard c k = Some (i, shards c ! i) \<and> i < length (shards c) \<and>
           (if closed c then Some c else f c) = Some (c\<lparr>shards := (shards c)[i := s']\<rparr>) \<and>
           shard_inv s' \<and> tally (shards c ! i) s' 0 a b \<and>
           a = (if \<not> closed c \<and> m (shards c ! i) k = None \<and>
                   (nominates (pol (shards c ! i)) k \<or> cap (shards c ! i) \<le> len (shards c ! i))
                then 1 else 0) \<and>
           (0 < b \<longrightarrow> \<not> closed c \<and> 0 < maxCost (shards c ! i) \<and>
                       maxCost (shards c ! i) < cost (shards c ! i) + sint (costOf c v))"
proof -
  from getShard_inv[OF inv, of k] obtain i where
    i: "getShard c k = Some (i, shards c ! i)" "i < length (shards c)" "shard_inv (shards c ! i)"
    by blast
  let ?s = "shards c ! i"
  show ?thesis
  proof (cases "closed c")
    case True
    show ?thesis
      apply (rule exI[of _ i], rule exI[of _ ?s], rule exI[of _ 0], rule exI[of _ 0])
      using True i by (simp add: tally_refl)
  next
    case False
    have c0: "0 \<le> sint (costOf c v)" using costOf_range[of c v] by simp
    from Set_shard_sum[OF i(3) c0, where k = k and v = v and ttl = ttl] obtain s' a b where
      r: "Set_shard k v ttl (sint (costOf c v)) ?s = Some s'" "shard_inv s'" "tally ?s s' 0 a b"
         "a = (if m ?s k = None \<and> (nominates (pol ?s) k \<or> cap ?s \<le> len ?s) then 1 else 0)"
         "0 < b \<longrightarrow> 0 < maxCost ?s \<and> maxCost ?s < cost ?s + sint (costOf c v)"
      by blast
    have "f c = Some (c\<lparr>shards := (shards c)[i := s']\<rparr>)"
      unfolding op using i(1) r(1) by simp
    then show ?thesis
      apply (rule_tac x = i in exI, rule_tac x = s' in exI, rule_tac x = a in exI, rule_tac x = b in exI)
      using False i r by simp
  qed
qed

lemma cache_Add_sum:
  fixes c :: "('k, 'v, 'e) cache"
  assumes inv: "cache_inv c"
  shows "\<exists>i s' a b. getShard c k = Some (i, shards c ! i) \<and> i < length (shards c) \<and>
           map_option snd (cache_Add c now k v) = Some (c\<lparr>shards := (shards c)[i := s']\<rparr>) \<and>
           map_option fst (cache_Add c now k v) = Some (\<not> closed c \<and> m (shards c ! i) k = None) \<and>
           shard_inv s' \<and> tally (shards c ! i) s' 0 a b \<and>
           a = (if \<not> closed c \<and> m (shards c ! i) k = None \<and>
                   (nominates (pol (shards c ! i)) k \<or> cap (shards c ! i) \<le> len (shards c ! i))
                then 1 else 0) \<and>
           (0 < b \<longrightarrow> \<not> closed c \<and> m (shards c ! i) k = None \<and> 0 < maxCost (shards c ! i) \<and>
                       maxCost (shards c ! i) < cost (shards c ! i) + sint (costOf c v)) \<and>
           (\<not> closed c \<and> m (shards c ! i) k = None \<and> 1 \<le> cap (shards c ! i) \<and>
            (0 < maxCost (shards c ! i) \<longrightarrow> sint (costOf c v) \<le> maxCost (shards c ! i)) \<longrightarrow>
              m s' k = Some (fresh (shards c ! i)) \<and> val (heap s' (fresh (shards c ! i))) = v) \<and>
           (\<not> closed c \<and> m (shards c ! i) k = None \<and> 0 < maxCost (shards c ! i) \<and>
            maxCost (shards c ! i) < sint (costOf c v) \<longrightarrow> m s' = Map.empty)"
proof -
  from getShard_inv[OF inv, of k] obtain i where
    i: "getShard c k = Some (i, shards c ! i)" "i < length (shards c)" "shard_inv (shards c ! i)"
    by blast
  let ?s = "shards c ! i"
  show ?thesis
  proof (cases "closed c \<or> m ?s k \<noteq> None")
    case True
    then have "cache_Add c now k v = Some (False, c)"
      using i by (auto simp: cache_Add_def Add_def)
    then show ?thesis
      apply (rule_tac x = i in exI, rule_tac x = ?s in exI, rule_tac x = 0 in exI, rule_tac x = 0 in exI)
      using True i by (auto simp: tally_refl)
  next
    case False
    then have nc: "\<not> closed c" and mk: "m ?s k = None" by simp_all
    have c0: "0 \<le> sint (costOf c v)" using costOf_range[of c v] by simp
    from add_new_sum[OF i(3) mk c0, where v = v and ttl = "sint (defaultDeadline c now)"]
    obtain s' a b where
      r: "add_new k v (sint (defaultDeadline c now)) (sint (costOf c v)) ?s = Some s'"
         "shard_inv s'" "tally ?s s' 0 a b"
         "a = (if nominates (pol ?s) k \<or> cap ?s \<le> len ?s then 1 else 0)"
         "0 < b \<longrightarrow> 0 < maxCost ?s \<and> maxCost ?s < cost ?s + sint (costOf c v)"
         "1 \<le> cap ?s \<and> (0 < maxCost ?s \<longrightarrow> sint (costOf c v) \<le> maxCost ?s) \<longrightarrow>
              m s' k = Some (fresh ?s) \<and> val (heap s' (fresh ?s)) = v"
         "0 < maxCost ?s \<and> maxCost ?s < sint (costOf c v) \<longrightarrow> m s' = Map.empty"
      by blast
    have "cache_Add c now k v = Some (True, c\<lparr>shards := (shards c)[i := s']\<rparr>)"
      using nc mk i(1) r(1) by (simp add: cache_Add_def Add_def)
    then show ?thesis
      apply (rule_tac x = i in exI, rule_tac x = s' in exI, rule_tac x = a in exI, rule_tac x = b in exI)
      using nc mk i r by simp
  qed
qed

lemma cache_Get_sum:
  fixes c :: "('k, 'v, 'e) cache"
  assumes inv: "cache_inv c"
  shows "\<exists>i s' r. getShard c k = Some (i, shards c ! i) \<and> i < length (shards c) \<and>
           cache_Get c now k = Some (r, c\<lparr>shards := (shards c)[i := s']\<rparr>) \<and>
           shard_inv s' \<and>
           tally (shards c ! i) s'
             (if \<not> closed c \<and> expired_in (shards c ! i) k (sint now) then 1 else 0) 0 0 \<and>
           (r = None \<longrightarrow> closed c \<or> m s' k = None) \<and>
           (closed c \<or> m (shards c ! i) k = None \<longrightarrow> r = None)"
proof -
  from getShard_inv[OF inv, of k] obtain i where
    i: "getShard c k = Some (i, shards c ! i)" "i < length (shards c)" "shard_inv (shards c ! i)"
    by blast
  let ?s = "shards c ! i"
  show ?thesis
  proof (cases "closed c")
    case True
    then have "cache_Get c now k = Some (None, c)" by (simp add: cache_Get_def)
    then show ?thesis
      apply (rule_tac x = i in exI, rule_tac x = ?s in exI, rule_tac x = None in exI)
      using True i by (simp add: tally_refl)
  next
    case False
    note g = Get_sum[OF i(3), of k "sint now"]
    have e: "cache_Get c now k =
       Some (fst (Get k (sint now) ?s), c\<lparr>shards := (shards c)[i := snd (Get k (sint now) ?s)]\<rparr>)"
      using False i(1) by (simp add: cache_Get_def case_prod_beta)
    show ?thesis
      apply (rule exI[of _ i], rule exI[of _ "snd (Get k (sint now) ?s)"],
             rule exI[of _ "fst (Get k (sint now) ?s)"])
      using False i e g by (simp add: expired_in_alt) (simp add: Get_cases)
  qed
qed

lemma cache_Remove_sum:
  fixes c :: "('k, 'v, 'e) cache"
  assumes inv: "cache_inv c"
  shows "\<exists>i s'. getShard c k = Some (i, shards c ! i) \<and> i < length (shards c) \<and>
           map_option snd (cache_Remove c k) = Some (c\<lparr>shards := (shards c)[i := s']\<rparr>) \<and>
           map_option fst (cache_Remove c k) = Some (\<not> closed c \<and> m (shards c ! i) k \<noteq> None) \<and>
           shard_inv s' \<and> metrics s' = metrics (shards c ! i) \<and> evicts s' = evicts (shards c ! i) \<and>
           cap s' = cap (shards c ! i) \<and> maxCost s' = maxCost (shards c ! i) \<and>
           (\<not> closed c \<longrightarrow> m s' k = None \<and>
              departed (shards c ! i) s' = (case m (shards c ! i) k of None \<Rightarrow> {} | Some n \<Rightarrow> {n}))"
proof -
  from getShard_inv[OF inv, of k] obtain i where
    i: "getShard c k = Some (i, shards c ! i)" "i < length (shards c)" "shard_inv (shards c ! i)"
    by blast
  let ?s = "shards c ! i"
  from i(3) obtain xs where ok: "shard_ok ?s xs" by (auto simp: shard_inv_def)
  show ?thesis
  proof (cases "closed c")
    case True
    then have "cache_Remove c k = Some (False, c)" by (simp add: cache_Remove_def)
    then show ?thesis
      apply (rule_tac x = i in exI, rule_tac x = ?s in exI)
      using True i by simp
  next
    case False
    note g = Remove_sum[OF i(3), of k] Remove_ok[OF ok, of k]
    have e: "cache_Remove c k =
       Some (fst (Remove k ?s), c\<lparr>shards := (shards c)[i := snd (Remove k ?s)]\<rparr>)"
      using False i(1) by (simp add: cache_Remove_def case_prod_beta)
    show ?thesis
      apply (rule exI[of _ i], rule exI[of _ "snd (Remove k ?s)"])
      using False i e g(1,2,6,7,8,9,12,13) by simp
  qed
qed

lemma cache_Get_sf:
  "cache_Get (c\<lparr>sf := x\<rparr>) now k =
     (case cache_Get c now k of None \<Rightarrow> None | Some (r, c') \<Rightarrow> Some (r, c'\<lparr>sf := x\<rparr>))"
  by (simp add: cache_Get_def case_prod_beta split: option.splits)

lemma cache_Set_sf:
  "cache_Set (c\<lparr>sf := x\<rparr>) now k v =
     (case cache_Set c now k v of None \<Rightarrow> None | Some c' \<Rightarrow> Some (c'\<lparr>sf := x\<rparr>))"
  by (simp add: cache_Set_def defaultDeadline_def deadline_def split: option.splits)

lemma sf_reset: "sf c = {} \<Longrightarrow> c\<lparr>sf := {k}\<rparr>\<lparr>sf := sf (c\<lparr>sf := {k}\<rparr>) - {k}\<rparr> = c"
  by simp

lemma GetOrLoad_sum:
  fixes c :: "('k, 'v, 'e) cache"
  assumes inv: "cache_inv c"
  shows "\<exists>i s' t a b r. getShard c k = Some (i, shards c ! i) \<and> i < length (shards c) \<and>
           GetOrLoad c ctx t1 t2 t3 k = Some (r, c\<lparr>shards := (shards c)[i := s']\<rparr>) \<and>
           shard_inv s' \<and> tally (shards c ! i) s' t a b \<and>
           t = (if \<not> closed c \<and> expired_in (shards c ! i) k (sint t1) then 1 else 0) \<and>
           a \<le> 1 \<and> (0 < b \<longrightarrow> 0 < maxCost (shards c ! i)) \<and>
           (0 < a + b \<longrightarrow> \<not> closed c \<and> (\<exists>load v. Loader (opt c) = Some load \<and> load ctx k = Inr v)) \<and>
           (map_option fst (cache_Get c t1 k) = Some None \<longrightarrow>
              (Loader (opt c) = None \<longrightarrow> r = Inl ErrNoLoader) \<and>
              (\<forall>load e. Loader (opt c) = Some load \<and> load ctx k = Inl e \<longrightarrow>
                 r = Inl e \<and> (closed c \<or> m s' k = None) \<and> a = 0 \<and> b = 0))"
proof -
  have sf0: "sf c = {}" using inv by (simp add: cache_inv_def)
  from cache_Get_sum[OF inv, of k t1] obtain i s1 r1 where
    g1: "getShard c k = Some (i, shards c ! i)" "i < length (shards c)"
        "cache_Get c t1 k = Some (r1, c\<lparr>shards := (shards c)[i := s1]\<rparr>)"
        "shard_inv s1"
        "tally (shards c ! i) s1
             (if \<not> closed c \<and> expired_in (shards c ! i) k (sint t1) then 1 else 0) 0 0"
        "r1 = None \<longrightarrow> closed c \<or> m s1 k = None"
    by blast
  let ?s = "shards c ! i"
  let ?t = "if \<not> closed c \<and> expired_in ?s k (sint t1) then 1 else 0 :: nat"
  define c1 where "c1 = c\<lparr>shards := (shards c)[i := s1]\<rparr>"
  have inv1: "cache_inv c1" unfolding c1_def using inv g1(4) by (rule cache_inv_upd)
  have f1: "closed c1 = closed c" "opt c1 = opt c" "sf c1 = {}" "length (shards c1) = length (shards c)"
    "shards c1 ! i = s1"
    using sf0 g1(2) by (simp_all add: c1_def)
  have gs1: "getShard c1 k = Some (i, s1)" unfolding c1_def using g1(1,2) by (rule getShard_upd)
  show ?thesis
  proof (cases r1)
    case (Some v)
    have "GetOrLoad c ctx t1 t2 t3 k = Some (Inr v, c\<lparr>shards := (shards c)[i := s1]\<rparr>)"
      using g1(3) Some by (simp add: GetOrLoad_def)
    then show ?thesis
      apply (rule_tac x = i in exI, rule_tac x = s1 in exI, rule_tac x = ?t in exI,
             rule_tac x = 0 in exI, rule_tac x = 0 in exI, rule_tac x = "Inr v" in exI)
      using g1 Some by simp
  next
    case None
    show ?thesis
    proof (cases "Loader (opt c)")
      case N: None
      have "GetOrLoad c ctx t1 t2 t3 k = Some (Inl ErrNoLoader, c\<lparr>shards := (shards c)[i := s1]\<rparr>)"
        using g1(3) None N by (simp add: GetOrLoad_def)
      then show ?thesis
        apply (rule_tac x = i in exI, rule_tac x = s1 in exI, rule_tac x = ?t in exI,
               rule_tac x = 0 in exI, rule_tac x = 0 in exI, rule_tac x = "Inl ErrNoLoader" in exI)
        using g1 N by simp
    next
      case (Some load)
      from cache_Get_sum[OF inv1, of k t2] gs1 f1 obtain s2 r2 where
        g2: "cache_Get c1 t2 k = Some (r2, c1\<lparr>shards := (shards c1)[i := s2]\<rparr>)"
            "shard_inv s2"
            "tally s1 s2 (if \<not> closed c \<and> expired_in s1 k (sint t2) then 1 else 0) 0 0"
            "r2 = None \<longrightarrow> closed c \<or> m s2 k = None"
            "closed c \<or> m s1 k = None \<longrightarrow> r2 = None"
        by auto
      have r2: "r2 = None" using g2(5) g1(6) None by simp
      have ne: "\<not> (\<not> closed c \<and> expired_in s1 k (sint t2))"
        using g1(6) None by (auto simp: expired_in_def)
      have t2: "tally s1 s2 0 0 0" using g2(3) ne by simp
      have t12: "tally ?s s2 ?t 0 0" using g1(5) t2 by (rule tally_compose)
      define c3 where "c3 = c\<lparr>shards := (shards c)[i := s2]\<rparr>"
      have c3: "c1\<lparr>shards := (shards c1)[i := s2]\<rparr> = c3" by (simp add: c1_def c3_def)
      have inv3: "cache_inv c3" unfolding c3_def using inv g2(2) by (rule cache_inv_upd)
      have f3: "closed c3 = closed c" "opt c3 = opt c" "sf c3 = {}" "shards c3 ! i = s2"
        "length (shards c3) = length (shards c)"
        using sf0 g1(2) by (simp_all add: c3_def)
      have gs3: "getShard c3 k = Some (i, s2)" unfolding c3_def using g1(1,2) by (rule getShard_upd)
      have unf: "GetOrLoad c ctx t1 t2 t3 k =
          (case load ctx k of
             Inl e \<Rightarrow> Some (Inl e, c3)
           | Inr v \<Rightarrow> (case cache_Set c3 t3 k v of None \<Rightarrow> None | Some c4 \<Rightarrow> Some (Inr v, c4)))"
      proof -
        have a: "GetOrLoad c ctx t1 t2 t3 k =
           Do ctx k
                (\<lambda>c2. case cache_Get c2 t2 k of
                         None \<Rightarrow> None
                       | Some (Some v, c3) \<Rightarrow> Some (Inr v, c3)
                       | Some (None, c3) \<Rightarrow>
                           (case load ctx k of
                              Inl e \<Rightarrow> Some (Inl e, c3)
                            | Inr v \<Rightarrow>
                                (case cache_Set c3 t3 k v of
                                   None \<Rightarrow> None
                                 | Some c4 \<Rightarrow> Some (Inr v, c4))))
                c1"
          using g1(3) None Some f1(2) by (simp add: GetOrLoad_def c1_def)
        have b: "cache_Get (c1\<lparr>sf := {k}\<rparr>) t2 k = Some (None, c3\<lparr>sf := {k}\<rparr>)"
          unfolding cache_Get_sf using g2(1) r2 c3 by simp
        have sfs: "sf c' = {} \<Longrightarrow> c'\<lparr>sf := {k}\<rparr>\<lparr>sf := sf (c'\<lparr>sf := {k}\<rparr>) - {k}\<rparr> = c'" for c' :: "('k, 'v, 'e) cache"
          by simp
        show ?thesis
        proof (cases "load ctx k")
          case (Inl e)
          show ?thesis unfolding a using b Inl f1(3) f3(3) by (simp add: Do_def)
        next
          case (Inr v)
          show ?thesis
          proof (cases "cache_Set c3 t3 k v")
            case N2: None
            show ?thesis unfolding a using b Inr f1(3) N2 by (simp add: Do_def cache_Set_sf)
          next
            case (Some c4)
            then have "sf c4 = {}" using f3(3)
              by (auto simp: cache_Set_def split: if_splits option.splits prod.splits)
            then show ?thesis unfolding a using b Inr f1(3) Some by (simp add: Do_def cache_Set_sf)
          qed
        qed
      qed
      show ?thesis
      proof (cases "load ctx k")
        case (Inl e)
        have "GetOrLoad c ctx t1 t2 t3 k = Some (Inl e, c\<lparr>shards := (shards c)[i := s2]\<rparr>)"
          unfolding unf using Inl by (simp add: c3_def)
        then show ?thesis
          apply (rule_tac x = i in exI, rule_tac x = s2 in exI, rule_tac x = ?t in exI,
                 rule_tac x = 0 in exI, rule_tac x = 0 in exI, rule_tac x = "Inl e" in exI)
          using g1(1,2) g2(2) t12 g2(4) r2 Some Inl by simp
      next
        case (Inr v)
        have sg: "cache_Set c3 t3 k v =
           (if closed c3 then Some c3
            else (\<lambda>c. case getShard c k of None \<Rightarrow> None
                 | Some (i, s) \<Rightarrow>
                     (case Set_shard k v (sint (defaultDeadline c3 t3)) (sint (costOf c v)) s of
                        None \<Rightarrow> None
                      | Some s' \<Rightarrow> Some (c\<lparr>shards := (shards c)[i := s']\<rparr>))) c3)"
          by (simp add: cache_Set_def)
        from cache_Set_gen[OF inv3 refl, of k v "sint (defaultDeadline c3 t3)"] gs3 f3
        obtain s4 a b where
          g4: "cache_Set c3 t3 k v = Some (c3\<lparr>shards := (shards c3)[i := s4]\<rparr>)"
              "shard_inv s4" "tally s2 s4 0 a b"
              "a = (if \<not> closed c \<and> m s2 k = None \<and> (nominates (pol s2) k \<or> cap s2 \<le> len s2)
                    then 1 else 0)"
              "0 < b \<longrightarrow> \<not> closed c \<and> 0 < maxCost s2 \<and> maxCost s2 < cost s2 + sint (costOf c3 v)"
          unfolding sg[symmetric] by auto
        have c4: "c3\<lparr>shards := (shards c3)[i := s4]\<rparr> = c\<lparr>shards := (shards c)[i := s4]\<rparr>"
          by (simp add: c3_def)
        have mc: "maxCost s2 = maxCost ?s" using t12 by (simp add: tally_def)
        have tl: "tally ?s s4 ?t a b" using t12 g4(3) by (rule tally_compose)
        have "GetOrLoad c ctx t1 t2 t3 k = Some (Inr v, c\<lparr>shards := (shards c)[i := s4]\<rparr>)"
          unfolding unf using Inr g4(1) c4 by simp
        then show ?thesis
          apply (rule_tac x = i in exI, rule_tac x = s4 in exI, rule_tac x = ?t in exI,
                 rule_tac x = a in exI, rule_tac x = b in exI, rule_tac x = "Inr v" in exI)
          using g1(1,2) g4(2) tl g4(4) g4(5) mc Some Inr by auto
      qed
    qed
  qed
qed

fun op_key :: "('k, 'v, 'e) op \<Rightarrow> 'k option" where
  "op_key (OpAdd now k v) = Some k"
| "op_key (OpSet now k v) = Some k"
| "op_key (OpSetWithTTL now k v ttl) = Some k"
| "op_key (OpGet now k) = Some k"
| "op_key (OpRemove k) = Some k"
| "op_key (OpGetOrLoad ctx t1 t2 t3 k) = Some k"
| "op_key OpLen = None"
| "op_key OpClose = None"

fun reasons ::
  "('k, 'v, 'e) op \<Rightarrow> ('k, 'v, 'e) cache \<Rightarrow> ('k, 'v) shard \<Rightarrow> nat \<Rightarrow> nat \<Rightarrow> nat \<Rightarrow> bool" where
  "reasons (OpGet now k) c s t a b \<longleftrightarrow>
     t = (if \<not> closed c \<and> expired_in s k (sint now) then 1 else 0) \<and> a = 0 \<and> b = 0"
| "reasons (OpAdd now k v) c s t a b \<longleftrightarrow>
     t = 0 \<and>
     a = (if \<not> closed c \<and> m s k = None \<and> (nominates (pol s) k \<or> cap s \<le> len s) then 1 else 0) \<and>
     (0 < b \<longrightarrow> \<not> closed c \<and> m s k = None \<and> 0 < maxCost s \<and>
                 maxCost s < cost s + sint (costOf c v))"
| "reasons (OpSet now k v) c s t a b \<longleftrightarrow>
     t = 0 \<and>
     a = (if \<not> closed c \<and> m s k = None \<and> (nominates (pol s) k \<or> cap s \<le> len s) then 1 else 0) \<and>
     (0 < b \<longrightarrow> \<not> closed c \<and> 0 < maxCost s \<and> maxCost s < cost s + sint (costOf c v))"
| "reasons (OpSetWithTTL now k v ttl) c s t a b \<longleftrightarrow>
     t = 0 \<and>
     a = (if \<not> closed c \<and> m s k = None \<and> (nominates (pol s) k \<or> cap s \<le> len s) then 1 else 0) \<and>
     (0 < b \<longrightarrow> \<not> closed c \<and> 0 < maxCost s \<and> maxCost s < cost s + sint (costOf c v))"
| "reasons (OpRemove k) c s t a b \<longleftrightarrow> t = 0 \<and> a = 0 \<and> b = 0"
| "reasons (OpGetOrLoad ctx t1 t2 t3 k) c s t a b \<longleftrightarrow>
     t = (if \<not> closed c \<and> expired_in s k (sint t1) then 1 else 0) \<and> a \<le> 1 \<and>
     (0 < b \<longrightarrow> 0 < maxCost s) \<and>
     (0 < a + b \<longrightarrow> \<not> closed c \<and> (\<exists>load v. Loader (opt c) = Some load \<and> load ctx k = Inr v))"
| "reasons OpLen c s t a b \<longleftrightarrow> t = 0 \<and> a = 0 \<and> b = 0"
| "reasons OpClose c s t a b \<longleftrightarrow> t = 0 \<and> a = 0 \<and> b = 0"

definition stored :: "('k, 'v, 'e) cache \<Rightarrow> 'k \<Rightarrow> 'v option" where
  "stored c k =
     (case getShard c k of
        None \<Rightarrow> None
      | Some (i, s) \<Rightarrow> (case m s k of None \<Rightarrow> None | Some n \<Rightarrow> Some (val (heap s n))))"

lemma tally_facts:
  assumes "shard_inv s" "shard_inv s'" "tally s s' t a b"
  shows "\<exists>new. metrics s' = metrics s @ new \<and>
           filter is_Evict new =
             replicate t (Evict EvictTTL) @ replicate a (Evict EvictPolicy) @
             replicate b (Evict EvictCapacity)"
    and "evicts s' = evicts s + (t + a + b)"
    and "card (departed s s') = t + a + b"
proof -
  show "\<exists>new. metrics s' = metrics s @ new \<and>
           filter is_Evict new =
             replicate t (Evict EvictTTL) @ replicate a (Evict EvictPolicy) @
             replicate b (Evict EvictCapacity)"
    and "evicts s' = evicts s + (t + a + b)"
    using assms(3) by (simp_all add: tally_def)
  from assms(1,2) obtain xs ys where ok: "shard_ok s xs" "shard_ok s' ys"
    by (auto simp: shard_inv_def)
  have "int (card (departed s s')) = len s + int (fresh s' - fresh s) - len s'"
    using ok by (rule departed_card) (use assms(3) in \<open>simp_all add: tally_def\<close>)
  also have "\<dots> = int (t + a + b)"
  proof -
    from assms(3) have "len s + int (fresh s' - fresh s) = len s' + int (t + a + b)"
      unfolding tally_def by (elim conjE)
    then show ?thesis by linarith
  qed
  finally show "card (departed s s') = t + a + b" by (simp only: of_nat_eq_iff)
qed

lemma map_upd_same:
  assumes "i < length xs" "f y = f (xs ! i)"
  shows "map f (xs[i := y]) = map f xs"
proof -
  have "map f (xs[i := y]) = (map f xs)[i := map f xs ! i]"
    using assms by (simp add: map_update)
  then show ?thesis by simp
qed

definition same_limits :: "('k, 'v, 'e) cache \<Rightarrow> ('k, 'v, 'e) cache \<Rightarrow> bool" where
  "same_limits c c' \<longleftrightarrow>
     map cap (shards c') = map cap (shards c) \<and>
     map maxCost (shards c') = map maxCost (shards c) \<and> opt c' = opt c \<and> hash c' = hash c"

lemma same_limits_upd:
  assumes "i < length (shards c)" "cap s' = cap (shards c ! i)" "maxCost s' = maxCost (shards c ! i)"
  shows "same_limits c (c\<lparr>shards := (shards c)[i := s']\<rparr>)"
  using assms by (simp add: same_limits_def map_upd_same)

lemma same_limits_tally:
  assumes "i < length (shards c)" "tally (shards c ! i) s' t a b"
  shows "same_limits c (c\<lparr>shards := (shards c)[i := s']\<rparr>)"
  using assms(1) by (rule same_limits_upd) (use assms(2) in \<open>simp_all add: tally_def\<close>)

lemma step_inv:
  fixes c :: "('k, 'v, 'e) cache"
  assumes inv: "cache_inv c"
  shows "\<exists>c'. step x c = Some c' \<and> cache_inv c' \<and> same_limits c c'"
proof (cases x)
  case (OpAdd now k v)
  from cache_Add_sum[OF inv, of k now v] obtain i s' a b where
    r: "i < length (shards c)"
    "map_option snd (cache_Add c now k v) = Some (c\<lparr>shards := (shards c)[i := s']\<rparr>)" "shard_inv s'"
    "tally (shards c ! i) s' 0 a b"
    by blast
  show ?thesis
    using OpAdd r(2) cache_inv_upd[OF inv r(3), of i] same_limits_tally[OF r(1,4)] by auto
next
  case (OpSet now k v)
  from cache_Set_gen[OF inv refl, of k v "sint (defaultDeadline c now)"] obtain i s' a b where
    r: "i < length (shards c)"
    "cache_Set c now k v = Some (c\<lparr>shards := (shards c)[i := s']\<rparr>)" "shard_inv s'"
    "tally (shards c ! i) s' 0 a b"
    unfolding cache_Set_def by blast
  show ?thesis
    using OpSet r(2) cache_inv_upd[OF inv r(3), of i] same_limits_tally[OF r(1,4)] by auto
next
  case (OpSetWithTTL now k v ttl)
  from cache_Set_gen[OF inv refl, of k v "sint (deadline c now ttl)"] obtain i s' a b where
    r: "i < length (shards c)"
    "SetWithTTL c now k v ttl = Some (c\<lparr>shards := (shards c)[i := s']\<rparr>)" "shard_inv s'"
    "tally (shards c ! i) s' 0 a b"
    unfolding SetWithTTL_def by blast
  show ?thesis
    using OpSetWithTTL r(2) cache_inv_upd[OF inv r(3), of i] same_limits_tally[OF r(1,4)] by auto
next
  case (OpGet now k)
  from cache_Get_sum[OF inv, of k now] obtain i s' r t where
    r: "i < length (shards c)"
    "cache_Get c now k = Some (r, c\<lparr>shards := (shards c)[i := s']\<rparr>)" "shard_inv s'"
    "tally (shards c ! i) s' t 0 0"
    by blast
  show ?thesis
    using OpGet r(2) cache_inv_upd[OF inv r(3), of i] same_limits_tally[OF r(1,4)] by auto
next
  case (OpRemove k)
  from cache_Remove_sum[OF inv, of k] obtain i s' where
    r: "i < length (shards c)"
    "map_option snd (cache_Remove c k) = Some (c\<lparr>shards := (shards c)[i := s']\<rparr>)" "shard_inv s'"
    "cap s' = cap (shards c ! i)" "maxCost s' = maxCost (shards c ! i)"
    by blast
  show ?thesis
    using OpRemove r(2) cache_inv_upd[OF inv r(3), of i] same_limits_upd[OF r(1,4,5)] by auto
next
  case (OpGetOrLoad ctx t1 t2 t3 k)
  from GetOrLoad_sum[OF inv, of k ctx t1 t2 t3] obtain i s' r t a b where
    r: "i < length (shards c)"
    "GetOrLoad c ctx t1 t2 t3 k = Some (r, c\<lparr>shards := (shards c)[i := s']\<rparr>)" "shard_inv s'"
    "tally (shards c ! i) s' t a b"
    by blast
  show ?thesis
    using OpGetOrLoad r(2) cache_inv_upd[OF inv r(3), of i] same_limits_tally[OF r(1,4)] by auto
next
  case OpLen
  then show ?thesis using inv by (simp add: same_limits_def)
next
  case OpClose
  then show ?thesis using inv by (simp add: Close_def cache_inv_def same_limits_def)
qed

lemma run_inv:
  fixes c :: "('k, 'v, 'e) cache"
  assumes "cache_inv c"
  shows "\<exists>c'. run ops c = Some c' \<and> cache_inv c' \<and> same_limits c c'"
  using assms
proof (induction ops arbitrary: c)
  case Nil
  then show ?case by (simp add: same_limits_def)
next
  case (Cons x ops)
  from step_inv[OF Cons.prems, of x] obtain c1 where
    c1: "step x c = Some c1" "cache_inv c1" "same_limits c c1" by blast
  from Cons.IH[OF c1(2)] obtain c' where
    c': "run ops c1 = Some c'" "cache_inv c'" "same_limits c1 c'" by blast
  have "same_limits c c'" using c1(3) c'(3) by (simp add: same_limits_def)
  with c1 c' show ?case by simp
qed

lemma reach_inv:
  assumes "New z procs hashf opts = Inr c0"
  shows "\<exists>c. run ops c0 = Some c \<and> cache_inv c \<and> same_limits c0 c"
  using run_inv[OF New_inv[OF assms]] .

fun is_Remove :: "('k, 'v, 'e) op \<Rightarrow> bool" where
  "is_Remove (OpRemove k) = True"
| "is_Remove _ = False"

lemma pack:
  fixes c :: "('k, 'v, 'e) cache"
  assumes inv: "cache_inv c" and g: "getShard c k = Some (i, shards c ! i)" "i < length (shards c)"
    and s': "shard_inv s'" and t: "tally (shards c ! i) s' t a b" and r: "R (shards c ! i) t a b"
    and c': "shards c' = (shards c)[i := s']"
  shows "\<exists>i s s' new t a b.
           getShard c k = Some (i, s) \<and> shards c' = (shards c)[i := s'] \<and>
           metrics s' = metrics s @ new \<and>
           filter is_Evict new =
             replicate t (Evict EvictTTL) @ replicate a (Evict EvictPolicy) @
             replicate b (Evict EvictCapacity) \<and>
           evicts s' = evicts s + (t + a + b) \<and> R s t a b \<and>
           card (departed s s') = t + a + b"
proof -
  have "shards c ! i \<in> set (shards c)" using g(2) by simp
  then have s: "shard_inv (shards c ! i)" using inv by (simp add: cache_inv_def)
  from tally_facts(1)[OF s s' t] obtain new where
    n: "metrics s' = metrics (shards c ! i) @ new"
       "filter is_Evict new =
             replicate t (Evict EvictTTL) @ replicate a (Evict EvictPolicy) @
             replicate b (Evict EvictCapacity)"
    by blast
  show ?thesis
    apply (rule exI[of _ i], rule exI[of _ "shards c ! i"], rule exI[of _ s'], rule exI[of _ new],
           rule exI[of _ t], rule exI[of _ a], rule exI[of _ b])
    by (intro conjI g(1) c' n tally_facts(2)[OF s s' t] r tally_facts(3)[OF s s' t])
qed

definition accounted ::
  "('k, 'v, 'e) op \<Rightarrow> ('k, 'v, 'e) cache \<Rightarrow> ('k, 'v, 'e) cache \<Rightarrow> bool" where
  "accounted x c c' \<longleftrightarrow>
     (case op_key x of
        None \<Rightarrow> shards c' = shards c
      | Some k \<Rightarrow>
          (\<exists>i s s' new t a b.
             getShard c k = Some (i, s) \<and> shards c' = (shards c)[i := s'] \<and>
             metrics s' = metrics s @ new \<and>
             filter is_Evict new =
               replicate t (Evict EvictTTL) @ replicate a (Evict EvictPolicy) @
               replicate b (Evict EvictCapacity) \<and>
             evicts s' = evicts s + (t + a + b) \<and>
             reasons x c s t a b \<and>
             (if is_Remove x
              then new = [] \<and>
                   (\<not> closed c \<longrightarrow>
                      m s' k = None \<and>
                      departed s s' = (case m s k of None \<Rightarrow> {} | Some n \<Rightarrow> {n}))
              else card (departed s s') = t + a + b)))"

lemma step_accounting:
  fixes c :: "('k, 'v, 'e) cache"
  assumes inv: "cache_inv c"
  shows "\<exists>c'. step x c = Some c' \<and> accounted x c c'"
proof (cases x)
  case (OpAdd now k v)
  from cache_Add_sum[OF inv, of k now v] obtain i s' a b where
    r: "getShard c k = Some (i, shards c ! i)" "i < length (shards c)"
       "map_option snd (cache_Add c now k v) = Some (c\<lparr>shards := (shards c)[i := s']\<rparr>)"
       "shard_inv s'" "tally (shards c ! i) s' 0 a b"
       "a = (if \<not> closed c \<and> m (shards c ! i) k = None \<and>
                   (nominates (pol (shards c ! i)) k \<or> cap (shards c ! i) \<le> len (shards c ! i))
                then 1 else 0)"
       "0 < b \<longrightarrow> \<not> closed c \<and> m (shards c ! i) k = None \<and> 0 < maxCost (shards c ! i) \<and>
                       maxCost (shards c ! i) < cost (shards c ! i) + sint (costOf c v)"
    by blast
  have rs: "reasons x c (shards c ! i) 0 a b" unfolding OpAdd using r(6,7) by simp
  define c' where "c' = c\<lparr>shards := (shards c)[i := s']\<rparr>"
  have sc: "shards c' = (shards c)[i := s']" by (simp add: c'_def)
  have st: "step x c = Some c'" unfolding c'_def using r(3) OpAdd by simp
  have "\<exists>i s s' new t a b.
           getShard c k = Some (i, s) \<and> shards c' = (shards c)[i := s'] \<and>
           metrics s' = metrics s @ new \<and>
           filter is_Evict new =
             replicate t (Evict EvictTTL) @ replicate a (Evict EvictPolicy) @
             replicate b (Evict EvictCapacity) \<and>
           evicts s' = evicts s + (t + a + b) \<and> reasons x c s t a b \<and>
           card (departed s s') = t + a + b"
    using inv r(1,2,4,5) rs sc by (rule pack[where R = "reasons x c"])
  then have "accounted x c c'" unfolding accounted_def by (simp add: OpAdd)
  with st show ?thesis by blast
next
  case (OpSet now k v)
  from cache_Set_gen[OF inv refl, of k v "sint (defaultDeadline c now)"] obtain i s' a b where
    r: "getShard c k = Some (i, shards c ! i)" "i < length (shards c)"
       "cache_Set c now k v = Some (c\<lparr>shards := (shards c)[i := s']\<rparr>)"
       "shard_inv s'" "tally (shards c ! i) s' 0 a b"
       "a = (if \<not> closed c \<and> m (shards c ! i) k = None \<and>
                   (nominates (pol (shards c ! i)) k \<or> cap (shards c ! i) \<le> len (shards c ! i))
                then 1 else 0)"
       "0 < b \<longrightarrow> \<not> closed c \<and> 0 < maxCost (shards c ! i) \<and>
                       maxCost (shards c ! i) < cost (shards c ! i) + sint (costOf c v)"
    unfolding cache_Set_def by blast
  have rs: "reasons x c (shards c ! i) 0 a b" unfolding OpSet using r(6,7) by simp
  define c' where "c' = c\<lparr>shards := (shards c)[i := s']\<rparr>"
  have sc: "shards c' = (shards c)[i := s']" by (simp add: c'_def)
  have st: "step x c = Some c'" unfolding c'_def using r(3) OpSet by simp
  have "\<exists>i s s' new t a b.
           getShard c k = Some (i, s) \<and> shards c' = (shards c)[i := s'] \<and>
           metrics s' = metrics s @ new \<and>
           filter is_Evict new =
             replicate t (Evict EvictTTL) @ replicate a (Evict EvictPolicy) @
             replicate b (Evict EvictCapacity) \<and>
           evicts s' = evicts s + (t + a + b) \<and> reasons x c s t a b \<and>
           card (departed s s') = t + a + b"
    using inv r(1,2,4,5) rs sc by (rule pack[where R = "reasons x c"])
  then have "accounted x c c'" unfolding accounted_def by (simp add: OpSet)
  with st show ?thesis by blast
next
  case (OpSetWithTTL now k v ttl)
  from cache_Set_gen[OF inv refl, of k v "sint (deadline c now ttl)"] obtain i s' a b where
    r: "getShard c k = Some (i, shards c ! i)" "i < length (shards c)"
       "SetWithTTL c now k v ttl = Some (c\<lparr>shards := (shards c)[i := s']\<rparr>)"
       "shard_inv s'" "tally (shards c ! i) s' 0 a b"
       "a = (if \<not> closed c \<and> m (shards c ! i) k = None \<and>
                   (nominates (pol (shards c ! i)) k \<or> cap (shards c ! i) \<le> len (shards c ! i))
                then 1 else 0)"
       "0 < b \<longrightarrow> \<not> closed c \<and> 0 < maxCost (shards c ! i) \<and>
                       maxCost (shards c ! i) < cost (shards c ! i) + sint (costOf c v)"
    unfolding SetWithTTL_def by blast
  have rs: "reasons x c (shards c ! i) 0 a b" unfolding OpSetWithTTL using r(6,7) by simp
  define c' where "c' = c\<lparr>shards := (shards c)[i := s']\<rparr>"
  have sc: "shards c' = (shards c)[i := s']" by (simp add: c'_def)
  have st: "step x c = Some c'" unfolding c'_def using r(3) OpSetWithTTL by simp
  have "\<exists>i s s' new t a b.
           getShard c k = Some (i, s) \<and> shards c' = (shards c)[i := s'] \<and>
           metrics s' = metrics s @ new \<and>
           filter is_Evict new =
             replicate t (Evict EvictTTL) @ replicate a (Evict EvictPolicy) @
             replicate b (Evict EvictCapacity) \<and>
           evicts s' = evicts s + (t + a + b) \<and> reasons x c s t a b \<and>
           card (departed s s') = t + a + b"
    using inv r(1,2,4,5) rs sc by (rule pack[where R = "reasons x c"])
  then have "accounted x c c'" unfolding accounted_def by (simp add: OpSetWithTTL)
  with st show ?thesis by blast
next
  case (OpGet now k)
  from cache_Get_sum[OF inv, of k now] obtain i s' r where
    r: "getShard c k = Some (i, shards c ! i)" "i < length (shards c)"
       "cache_Get c now k = Some (r, c\<lparr>shards := (shards c)[i := s']\<rparr>)"
       "shard_inv s'"
       "tally (shards c ! i) s'
             (if \<not> closed c \<and> expired_in (shards c ! i) k (sint now) then 1 else 0) 0 0"
    by blast
  let ?t = "if \<not> closed c \<and> expired_in (shards c ! i) k (sint now) then 1 else 0 :: nat"
  have rs: "reasons x c (shards c ! i) ?t 0 0" unfolding OpGet by simp
  define c' where "c' = c\<lparr>shards := (shards c)[i := s']\<rparr>"
  have sc: "shards c' = (shards c)[i := s']" by (simp add: c'_def)
  have st: "step x c = Some c'" unfolding c'_def using r(3) OpGet by simp
  have "\<exists>i s s' new t a b.
           getShard c k = Some (i, s) \<and> shards c' = (shards c)[i := s'] \<and>
           metrics s' = metrics s @ new \<and>
           filter is_Evict new =
             replicate t (Evict EvictTTL) @ replicate a (Evict EvictPolicy) @
             replicate b (Evict EvictCapacity) \<and>
           evicts s' = evicts s + (t + a + b) \<and> reasons x c s t a b \<and>
           card (departed s s') = t + a + b"
    using inv r(1,2,4,5) rs sc by (rule pack[where R = "reasons x c"])
  then have "accounted x c c'" unfolding accounted_def by (simp add: OpGet)
  with st show ?thesis by blast
next
  case (OpGetOrLoad ctx t1 t2 t3 k)
  from GetOrLoad_sum[OF inv, of k ctx t1 t2 t3] obtain i s' t a b r where
    r: "getShard c k = Some (i, shards c ! i)" "i < length (shards c)"
       "GetOrLoad c ctx t1 t2 t3 k = Some (r, c\<lparr>shards := (shards c)[i := s']\<rparr>)"
       "shard_inv s'" "tally (shards c ! i) s' t a b"
       "t = (if \<not> closed c \<and> expired_in (shards c ! i) k (sint t1) then 1 else 0)"
       "a \<le> 1" "0 < b \<longrightarrow> 0 < maxCost (shards c ! i)"
       "0 < a + b \<longrightarrow> \<not> closed c \<and> (\<exists>load v. Loader (opt c) = Some load \<and> load ctx k = Inr v)"
    by blast
  have rs: "reasons x c (shards c ! i) t a b" unfolding OpGetOrLoad using r(6,7,8,9) by simp
  define c' where "c' = c\<lparr>shards := (shards c)[i := s']\<rparr>"
  have sc: "shards c' = (shards c)[i := s']" by (simp add: c'_def)
  have st: "step x c = Some c'" unfolding c'_def using r(3) OpGetOrLoad by simp
  have "\<exists>i s s' new t a b.
           getShard c k = Some (i, s) \<and> shards c' = (shards c)[i := s'] \<and>
           metrics s' = metrics s @ new \<and>
           filter is_Evict new =
             replicate t (Evict EvictTTL) @ replicate a (Evict EvictPolicy) @
             replicate b (Evict EvictCapacity) \<and>
           evicts s' = evicts s + (t + a + b) \<and> reasons x c s t a b \<and>
           card (departed s s') = t + a + b"
    using inv r(1,2,4,5) rs sc by (rule pack[where R = "reasons x c"])
  then have "accounted x c c'" unfolding accounted_def by (simp add: OpGetOrLoad)
  with st show ?thesis by blast
next
  case (OpRemove k)
  from cache_Remove_sum[OF inv, of k] obtain i s' where
    r: "getShard c k = Some (i, shards c ! i)" "i < length (shards c)"
       "map_option snd (cache_Remove c k) = Some (c\<lparr>shards := (shards c)[i := s']\<rparr>)"
       "shard_inv s'" "metrics s' = metrics (shards c ! i)" "evicts s' = evicts (shards c ! i)"
       "cap s' = cap (shards c ! i)" "maxCost s' = maxCost (shards c ! i)"
       "\<not> closed c \<longrightarrow> m s' k = None \<and>
              departed (shards c ! i) s' = (case m (shards c ! i) k of None \<Rightarrow> {} | Some n \<Rightarrow> {n})"
    by blast
  define c' where "c' = c\<lparr>shards := (shards c)[i := s']\<rparr>"
  have sc: "shards c' = (shards c)[i := s']" by (simp add: c'_def)
  have st: "step x c = Some c'" unfolding c'_def using r(3) OpRemove by simp
  have "\<exists>j s0 s1 new t a b.
                   getShard c k = Some (j, s0) \<and> shards c' = (shards c)[j := s1] \<and>
                   metrics s1 = metrics s0 @ new \<and>
                   filter is_Evict new =
                     replicate t (Evict EvictTTL) @ replicate a (Evict EvictPolicy) @
                     replicate b (Evict EvictCapacity) \<and>
                   evicts s1 = evicts s0 + (t + a + b) \<and>
                   (t = 0 \<and> a = 0 \<and> b = 0) \<and>
                   new = [] \<and>
                         (\<not> closed c \<longrightarrow>
                            m s1 k = None \<and>
                            departed s0 s1 = (case m s0 k of None \<Rightarrow> {} | Some n \<Rightarrow> {n}))"
    apply (rule exI[of _ i], rule exI[of _ "shards c ! i"], rule exI[of _ s'], rule exI[of _ "[]"],
           rule exI[of _ 0], rule exI[of _ 0], rule exI[of _ 0])
    using r sc by simp
  then have "accounted x c c'" unfolding accounted_def by (simp add: OpRemove)
  with st show ?thesis by blast
next
  case OpLen
  then show ?thesis by (simp add: accounted_def)
next
  case OpClose
  then show ?thesis by (simp add: Close_def accounted_def)
qed

lemma shard_ok_cost_sum:
  assumes "shard_ok s xs"
  shows "(\<Sum>a \<in> ran (m s). node.cost (heap s a)) = cost s"
proof -
  have "(\<Sum>a \<in> set xs. node.cost (heap s a)) = sum_list (map (\<lambda>a. node.cost (heap s a)) xs)"
    using shard_ok_distinct[OF assms] by (simp add: sum_list_distinct_conv_sum_set)
  then show ?thesis using assms shard_ok_ran[OF assms] by (simp add: shard_ok_def)
qed

lemma New_caps:
  assumes n: "New z procs hashf opts = Inr c0"
    and no: "sint (Capacity opts) + sint (shardCount procs opts) \<le> 2 ^ 63"
  shows "\<forall>x \<in> set (map cap (shards c0)).
           x = (sint (Capacity opts) + sint (shardCount procs opts) - 1) div sint (shardCount procs opts)
           \<and> 1 \<le> x"
proof -
  note s = New_shards[OF n]
  have C: "0 < sint (Capacity opts)" using s(1) by (simp add: word_sle_eq)
  have S: "0 < sint (shardCount procs opts)" using s(2) by (rule shardCount_pos)
  note p = perShardCap_ceil[OF C S no]
  show ?thesis unfolding s(3) using p by (simp add: newShard_fields)
qed

lemma cache_invariants:
  fixes c0 :: "('k, 'v, 'e) cache"
  assumes n: "New z procs hashf opts = Inr c0"
    and no: "sint (Capacity opts) + sint (shardCount procs opts) \<le> 2 ^ 63"
  shows "\<exists>c. run ops c0 = Some c \<and>
           (\<forall>s \<in> set (shards c).
              int (card (dom (m s))) = len s \<and>
              (\<Sum>a \<in> ran (m s). node.cost (heap s a)) = cost s \<and>
              len s \<le> cap s \<and> (0 < maxCost s \<longrightarrow> cost s \<le> maxCost s))"
proof -
  from reach_inv[OF n, of ops] obtain c where
    c: "run ops c0 = Some c" "cache_inv c" "same_limits c0 c" by blast
  have caps: "1 \<le> cap s" if "s \<in> set (shards c)" for s
  proof -
    have "map cap (shards c) = map cap (shards c0)" using c(3) by (simp only: same_limits_def)
    moreover have "cap s \<in> set (map cap (shards c))" using that by simp
    ultimately have "cap s \<in> set (map cap (shards c0))" by (simp only:)
    with New_caps[OF n no] show ?thesis by blast
  qed
  have "int (card (dom (m s))) = len s \<and>
              (\<Sum>a \<in> ran (m s). node.cost (heap s a)) = cost s \<and>
              len s \<le> cap s \<and> (0 < maxCost s \<longrightarrow> cost s \<le> maxCost s)"
    if s: "s \<in> set (shards c)" for s
  proof -
    have i: "shard_inv s" using c(2) s by (simp add: cache_inv_def)
    then obtain xs where ok: "shard_ok s xs" by (auto simp: shard_inv_def)
    have "len s \<le> cap s" using i caps[OF s] by (auto simp: shard_inv_def)
    moreover have "0 < maxCost s \<longrightarrow> cost s \<le> maxCost s" using i by (simp add: shard_inv_def)
    ultimately show ?thesis
      using shard_ok_card[OF ok] shard_ok_len[OF ok] shard_ok_cost_sum[OF ok] by simp
  qed
  with c(1) show ?thesis by blast
qed

section \<open>Concrete shards\<close>

text \<open>
  A shard of capacity 2 under LRU, as \<^verbatim>\<open>newShard\<close> builds it, and the shard it becomes
  after \<^verbatim>\<open>Set("a", 7)\<close> with deadline 10 and cost 0.
\<close>

definition w_node :: "(string, nat) node" where
  "w_node = \<lparr>key = [], val = 0, prev = None, next = None, exp = 0, node.cost = 0\<rparr>"

definition w_opts :: "(string, nat, unit) Options" where
  "w_opts = \<lparr>Capacity = 2, Shards = 1, Policy = None, DefaultTTL = 0, Cost = None,
             MaxCost = 0, Loader = None, OnEvict = False\<rparr>"

definition w_shard0 :: "(string, nat) shard" where
  "w_shard0 = newShard w_node 1 2 PolicyLRU w_opts"

definition w_shard1 :: "(string, nat) shard" where
  "w_shard1 =
     \<lparr>m = [''a'' \<mapsto> 0], head = Some 0, tail = Some 0, len = 1, cost = 0,
      cap = 2, maxCost = 0, pol = LRU, onEvict = False, hits = 0, misses = 0, evicts = 0,
      heap = (\<lambda>_. w_node)(0 := \<lparr>key = ''a'', val = 7, prev = None, next = None, exp = 10, node.cost = 0\<rparr>),
      fresh = 1, metrics = [Size 1 0], callbacks = []\<rparr>"

lemma w_shard1_reached: "Set_shard ''a'' 7 10 0 w_shard0 = Some w_shard1"
  by (simp add: w_shard0_def w_shard1_def w_opts_def newShard_def Policy_New_def
      Set_shard_def add_new_def new_node_def pol_OnAdd_def lru_OnAdd_def
      insertFront_def Let_def set_prev_def set_next_def enforceLimitsLocked_def enforceCount.simps
      backNode_def)

lemma w_shard1_ok: "shard_ok w_shard1 [0]"
  by (simp add: shard_ok_def dll_def w_shard1_def first_opt_def last_opt_def pol_ok_def)

definition w_shard_full :: "(string, nat) shard" where
  "w_shard_full = w_shard1\<lparr>cap := 1\<rparr>"

definition w_twoq :: "string twoQ" where
  "w_twoq = twoq_OnRemove (fst (snd (twoq_OnAdd (twoq_New 1 1) 0 w_shard1))) 0
              (snd (snd (twoq_OnAdd (twoq_New 1 1) 0 w_shard1)))"

lemma w_twoq_eval:
  "inList w_twoq = [] \<and> ghostList w_twoq = [''a''] \<and> ghostIdx w_twoq = {''a''} \<and> inIdx w_twoq = {}"
  by (simp add: w_twoq_def twoq_OnRemove_def twoq_OnAdd_def twoq_New_def Let_def w_shard1_def
       trimGhosts.simps insertFront_def set_prev_def set_next_def)




text \<open>
  A shard holding \<^verbatim>\<open>"a"\<close> with two more nodes allocated and not yet inserted, and a 2Q
  state whose A1in holds the resident node and whose ghost queue holds \<^verbatim>\<open>"z"\<close>.
\<close>

definition w_shard2 :: "(string, nat) shard" where
  "w_shard2 = w_shard1\<lparr>heap := (heap w_shard1)
      (2 := \<lparr>key = ''z'', val = 1, prev = None, next = None, exp = 0, node.cost = 0\<rparr>,
       3 := \<lparr>key = ''y'', val = 2, prev = None, next = None, exp = 0, node.cost = 0\<rparr>),
     fresh := 4\<rparr>"

definition w_q :: "string twoQ" where
  "w_q = \<lparr>capIn = 1, capGhost = 1, inList = [0], inIdx = {0},
          ghostList = [''z''], ghostIdx = {''z''}\<rparr>"

lemma w_shard2_dll: "dll w_shard2 [0]"
  by (simp add: dll_def w_shard2_def w_shard1_def first_opt_def last_opt_def)

section \<open>Concrete caches\<close>

text \<open>
  The cache \<^verbatim>\<open>New\<close> builds for capacity 1, one shard and a default TTL of 10, and what it
  becomes after \<^verbatim>\<open>Set("a", 7)\<close> at time 0.
\<close>

definition w_opts1 :: "(string, nat, unit) Options" where
  "w_opts1 = w_opts\<lparr>Capacity := 1, DefaultTTL := 10\<rparr>"

definition w_hash :: "string \<Rightarrow> 64 word" where
  "w_hash k = 0"

definition w_cache0 :: "(string, nat, unit) cache" where
  "w_cache0 = \<lparr>shards = [w_shard0\<lparr>cap := 1\<rparr>], hash = w_hash, closed = False,
               opt = w_opts1, sf = {}\<rparr>"

definition w_cache1 :: "(string, nat, unit) cache" where
  "w_cache1 = w_cache0\<lparr>shards := [w_shard_full]\<rparr>"

lemma w_cache0_New: "New w_node 1 w_hash w_opts1 = Inr w_cache0"
  by (simp add: New_def shardCount_def NextPow2_def go_div_def w_opts1_def w_opts_def
        w_cache0_def w_shard0_def newShard_def Let_def word_sle_eq word_sless_alt)

lemma w_shard_full_reached: "Set_shard ''a'' 7 10 0 (w_shard0\<lparr>cap := 1\<rparr>) = Some w_shard_full"
  by (simp add: w_shard0_def w_shard1_def w_shard_full_def w_opts_def newShard_def Policy_New_def
      Set_shard_def add_new_def new_node_def pol_OnAdd_def lru_OnAdd_def
      insertFront_def Let_def set_prev_def set_next_def enforceLimitsLocked_def enforceCount.simps
      backNode_def)

lemma w_getShard0: "getShard w_cache0 k = Some (0, w_shard0\<lparr>cap := 1\<rparr>)"
  by (simp add: getShard_def w_cache0_def w_hash_def)

lemma w_getShard1: "getShard w_cache1 k = Some (0, w_shard_full)"
  by (simp add: getShard_def w_cache0_def w_cache1_def w_hash_def)

lemma w_cache1_run: "run [OpSet 0 ''a'' 7] w_cache0 = Some w_cache1"
proof -
  have d: "sint (defaultDeadline w_cache0 0) = 10"
    by (simp add: defaultDeadline_def deadline_def w_cache0_def w_opts1_def word_sle_eq)
  have c: "sint (costOf w_cache0 7) = 0"
    by (simp add: costOf_def w_cache0_def w_opts1_def w_opts_def)
  have cl: "\<not> closed w_cache0" "shards w_cache0 = [w_shard0\<lparr>cap := 1\<rparr>]" by (simp_all add: w_cache0_def)
  have "cache_Set w_cache0 0 ''a'' 7 = Some w_cache1"
    unfolding cache_Set_def using cl by (simp add: w_getShard0 d c w_shard_full_reached w_cache1_def)
  then show ?thesis by simp
qed

text \<open>
  \<^verbatim>\<open>Options{Capacity: math.MaxInt64, Shards: 2}\<close>: the sum \<^verbatim>\<open>Capacity + sh - 1\<close> wraps.
\<close>

definition w_big :: "(string, nat, unit) Options" where
  "w_big = w_opts\<lparr>Capacity := 9223372036854775807, Shards := 2\<rparr>"

definition w_cache_big :: "(string, nat, unit) cache" where
  "w_cache_big =
     \<lparr>shards = replicate 2 (newShard w_node 1 (- 4611686018427387904) PolicyLRU w_big),
      hash = w_hash, closed = False, opt = w_big, sf = {}\<rparr>"

lemma w_cache_big_New: "New w_node 1 w_hash w_big = Inr w_cache_big"
proof -
  have a: "shardCount 1 w_big = 2"
    by (simp add: shardCount_def NextPow2_def w_big_def w_opts_def Let_def word_sle_eq
          word_le_nat_alt)
  have b: "go_div (Capacity w_big + 2 - 1) 2 = - 4611686018427387904"
    by (simp add: go_div_def w_big_def)
  show ?thesis
    unfolding New_def a Let_def b
    by (simp add: w_big_def w_opts_def w_cache_big_def word_sle_eq word_sless_alt)
qed

lemma w_cache_big_fields:
  "\<not> closed w_cache_big" "length (shards w_cache_big) = 2"
  "shards w_cache_big ! 0 = newShard w_node 1 (- 4611686018427387904) PolicyLRU w_big"
  "getShard w_cache_big k = Some (0, shards w_cache_big ! 0)"
  by (simp_all add: w_cache_big_def getShard_def w_hash_def)

lemma w_big_shard:
  "cap (newShard w_node 1 (- 4611686018427387904) PolicyLRU w_big) = - 4611686018427387904"
  "len (newShard w_node 1 (- 4611686018427387904) PolicyLRU w_big) = 0"
  "m (newShard w_node 1 (- 4611686018427387904) PolicyLRU w_big) k = None"
  by (simp_all add: newShard_def Let_def)

text \<open>\<^verbatim>\<open>Options{Capacity: 8, Shards: 3, MaxCost: 10}\<close>: three shards asked for, four built.\<close>

definition w_opts3 :: "(string, nat, unit) Options" where
  "w_opts3 = w_opts\<lparr>Capacity := 8, Shards := 3, MaxCost := 10\<rparr>"

definition w_cache3 :: "(string, nat, unit) cache" where
  "w_cache3 =
     \<lparr>shards = replicate 4 (newShard w_node 1 2 PolicyLRU w_opts3),
      hash = w_hash, closed = False, opt = w_opts3, sf = {}\<rparr>"

lemma w_shardCount3: "shardCount 1 w_opts3 = 4"
  by (simp add: shardCount_def NextPow2_def w_opts3_def w_opts_def Let_def word_sle_eq
        word_le_nat_alt)

text \<open>
  \<^verbatim>\<open>Options{Capacity: 1, Shards: 1, MaxCost: 10, Cost: v}\<close>: the cost of a value is the
  value itself.
\<close>

definition w_opts7 :: "(string, nat, unit) Options" where
  "w_opts7 = w_opts\<lparr>Capacity := 1, Cost := Some of_nat, MaxCost := 10\<rparr>"

definition w_cache7 :: "(string, nat, unit) cache" where
  "w_cache7 =
     \<lparr>shards = [newShard w_node 1 1 PolicyLRU w_opts7],
      hash = w_hash, closed = False, opt = w_opts7, sf = {}\<rparr>"

definition w_cache7a :: "(string, nat, unit) cache" where
  "w_cache7a = snd (the (cache_Add w_cache7 0 ''a'' 11))"

lemma w_cache7_New: "New w_node 1 w_hash w_opts7 = Inr w_cache7"
  by (simp add: New_def shardCount_def NextPow2_def go_div_def w_opts7_def w_opts_def
        w_cache7_def Let_def word_sle_eq word_sless_alt)

lemma w_cache7_fields:
  "\<not> closed w_cache7" "shards w_cache7 ! 0 = newShard w_node 1 1 PolicyLRU w_opts7"
  "getShard w_cache7 k = Some (0, newShard w_node 1 1 PolicyLRU w_opts7)"
  "sint (costOf w_cache7 11) = 11" "sint (costOf w_cache7 5) = 5"
  "maxCost (newShard w_node 1 1 PolicyLRU w_opts7) = 10"
  "cap (newShard w_node 1 1 PolicyLRU w_opts7) = 1"
  "m (newShard w_node 1 1 PolicyLRU w_opts7) k = None"
  by (simp_all add: w_cache7_def getShard_def w_hash_def costOf_def w_opts7_def w_opts_def
        newShard_def go_div_def Let_def word_sle_eq word_sless_alt)

text \<open>A cache whose loader fails on every key.\<close>

definition w_fail :: "unit error option \<Rightarrow> string \<Rightarrow> unit error + nat" where
  "w_fail ctx k = Inl (Err ())"

definition w_opts8 :: "(string, nat, unit) Options" where
  "w_opts8 = w_opts1\<lparr>Loader := Some w_fail\<rparr>"

definition w_cache8 :: "(string, nat, unit) cache" where
  "w_cache8 = w_cache0\<lparr>opt := w_opts8\<rparr>"

lemma w_cache8_New: "New w_node 1 w_hash w_opts8 = Inr w_cache8"
  by (simp add: New_def shardCount_def NextPow2_def go_div_def w_opts8_def w_opts1_def w_opts_def
        w_cache8_def w_cache0_def w_shard0_def newShard_def Let_def word_sle_eq word_sless_alt)

lemma w_cache8_miss: "map_option fst (cache_Get w_cache8 0 ''a'') = Some None"
  by (simp add: cache_Get_def w_cache8_def w_cache0_def getShard_def w_hash_def Get_def
        w_shard0_def newShard_def Let_def)

lemma w_cache1_miss: "map_option fst (cache_Get w_cache1 11 ''a'') = Some None"
proof -
  have c: "\<not> closed w_cache1" by (simp add: w_cache1_def w_cache0_def)
  have g: "fst (Get ''a'' 11 w_shard_full) = None"
    by (simp add: Get_cases w_shard_full_def w_shard1_def)
  show ?thesis using c g by (simp add: cache_Get_def w_getShard1 case_prod_beta)
qed

section \<open>Claims about the shard\<close>

text \<open>
  C4. \<^verbatim>\<open>Get(k)\<close> on a key whose node \<open>n\<close> is in the map. When \<open>n.exp \<noteq> 0\<close> and
  \<open>now > n.exp\<close> the node is evicted with reason TTL (it leaves the map and the list,
  the eviction counter grows by one and \<open>Evict TTL\<close> is emitted), the miss counter grows by
  one, \<open>Miss\<close> is emitted and no value is returned. Otherwise the policy's \<^verbatim>\<open>OnGet\<close> runs
  (the node moves to the front), the hit counter grows by one, \<open>Hit\<close> is emitted and the
  stored value is returned. An entry whose deadline equals \<open>now\<close> is a hit.
\<close>

theorem Get_found:
  assumes "shard_ok s xs" and "m s k = Some n"
  shows "(Get k now s =
           (if exp (heap s n) \<noteq> 0 \<and> now > exp (heap s n)
            then (None, (evictNode n EvictTTL s)
                          \<lparr>misses := misses s + 1, metrics := metrics s @ [Evict EvictTTL, Miss]\<rparr>)
            else (Some (val (heap s n)),
                  (pol_OnGet n s)\<lparr>hits := hits s + 1, metrics := metrics s @ [Hit]\<rparr>)))
       \<and> m (evictNode n EvictTTL s) k = None
       \<and> shard_ok (evictNode n EvictTTL s) (remove1 n xs)
       \<and> evicts (evictNode n EvictTTL s) = evicts s + 1
       \<and> shard_ok (pol_OnGet n s) (n # remove1 n xs)
       \<and> (exp (heap s n) = now \<longrightarrow> fst (Get k now s) = Some (val (heap s n)))"
proof -
  have n: "n \<in> set xs" "key (heap s n) = k" using shard_ok_map[OF assms(1), of k n] assms(2) by simp_all
  show ?thesis
    using assms(2) n shard_ok_evictNode[OF assms(1) n(1), of EvictTTL] shard_ok_OnGet[OF assms(1) n(1)]
    by (simp add: Get_cases)
qed

theorem Get_found_witness:
  "shard_ok w_shard1 [0] \<and> m w_shard1 ''a'' = Some 0
   \<and> fst (Get ''a'' 10 w_shard1) = Some 7
   \<and> fst (Get ''a'' 11 w_shard1) = None
   \<and> metrics (snd (Get ''a'' 11 w_shard1)) = [Size 1 0, Evict EvictTTL, Miss]
   \<and> metrics (snd (Get ''a'' 10 w_shard1)) = [Size 1 0, Hit]
   \<and> m (snd (Get ''a'' 11 w_shard1)) ''a'' = None"
proof -
  have a: "m w_shard1 ''a'' = Some 0" by (simp add: w_shard1_def)
  have e: "exp (heap w_shard1 0) = 10" "val (heap w_shard1 0) = 7" by (simp_all add: w_shard1_def)
  show ?thesis
    using Get_found[OF w_shard1_ok a, of 10] Get_found[OF w_shard1_ok a, of 11] w_shard1_ok a e
    by (simp add: w_shard1_def)
qed



section \<open>Claims about the 2Q policy\<close>

text \<open>
  C5. \<^verbatim>\<open>OnAdd(n)\<close> of the 2Q policy. In both cases \<open>n\<close> is pushed to the front of the
  shard list: \<open>n\<close> is the head, a list that held the nodes \<open>xs\<close>, \<open>n\<close> not among
  them, holds \<open>n # xs\<close>, \<open>len\<close> grows by one and \<open>cost\<close> by the cost of \<open>n\<close>,
  and the map and the content of the nodes stay as they were. When the key of \<open>n\<close> is in the ghost queue A1out, the ghost entry is removed (from
  the list and from its index), A1in is left as it was and no eviction candidate is
  returned. Otherwise \<open>n\<close> becomes the MRU (first) element of A1in, the ghosts are left
  as they were, and the candidate returned is the LRU (last) element of A1in when A1in now
  holds more than \<open>capIn\<close> nodes, and none when it does not.
\<close>

theorem twoq_OnAdd_admission:
  "case twoq_OnAdd q n s of (cand, q', s') \<Rightarrow>
           s' = insertFront n s \<and>
           (\<forall>xs. dll s xs \<and> n \<notin> set xs \<longrightarrow> dll s' (n # xs)) \<and> head s' = Some n \<and>
           len s' = len s + 1 \<and> cost s' = cost s + node.cost (heap s n) \<and> m s' = m s \<and>
           (\<forall>a. key (heap s' a) = key (heap s a) \<and> val (heap s' a) = val (heap s a) \<and>
                exp (heap s' a) = exp (heap s a) \<and> node.cost (heap s' a) = node.cost (heap s a)) \<and>
           (if key (heap s n) \<in> ghostIdx q
            then cand = None \<and>
                 q' = q\<lparr>ghostList := remove1 (key (heap s n)) (ghostList q),
                        ghostIdx := ghostIdx q - {key (heap s n)}\<rparr>
            else q' = q\<lparr>inList := n # inList q, inIdx := insert n (inIdx q)\<rparr> \<and>
                 hd (inList q') = n \<and>
                 cand = (if int (length (inList q')) > capIn q then Some (last (inList q'))
                         else None))"
  using dll_insertFront[of s _ n]
  by (simp add: twoq_OnAdd_def Let_def insertFront_fields)

theorem twoq_OnAdd_admission_witness:
  "dll w_shard2 [0] \<and> 2 \<notin> set [0::nat] \<and> 3 \<notin> set [0::nat] \<and>
   fst (twoq_OnAdd w_q 2 w_shard2) = None \<and>
   ghostList (fst (snd (twoq_OnAdd w_q 2 w_shard2))) = [] \<and>
   inList (fst (snd (twoq_OnAdd w_q 2 w_shard2))) = [0] \<and>
   dll (snd (snd (twoq_OnAdd w_q 2 w_shard2))) [2, 0] \<and>
   fst (twoq_OnAdd w_q 3 w_shard2) = Some 0 \<and>
   ghostList (fst (snd (twoq_OnAdd w_q 3 w_shard2))) = [''z''] \<and>
   inList (fst (snd (twoq_OnAdd w_q 3 w_shard2))) = [3, 0] \<and>
   dll (snd (snd (twoq_OnAdd w_q 3 w_shard2))) [3, 0]"
proof -
  have k: "key (heap w_shard2 2) = ''z''" "key (heap w_shard2 3) = ''y''"
    by (simp_all add: w_shard2_def)
  have n: "2 \<notin> set [0::nat]" "3 \<notin> set [0::nat]" by simp_all
  have g: "ghostIdx w_q = {''z''}" "ghostList w_q = [''z'']" "inList w_q = [0]" "capIn w_q = 1"
    by (simp_all add: w_q_def)
  have a: "fst (twoq_OnAdd w_q 2 w_shard2) = None \<and>
     ghostList (fst (snd (twoq_OnAdd w_q 2 w_shard2))) = [] \<and>
     inList (fst (snd (twoq_OnAdd w_q 2 w_shard2))) = [0] \<and>
     dll (snd (snd (twoq_OnAdd w_q 2 w_shard2))) [2, 0]"
    using twoq_OnAdd_admission[where q = w_q and n = 2 and s = w_shard2] w_shard2_dll n(1)
    by (auto simp: case_prod_beta k g)
  have b: "fst (twoq_OnAdd w_q 3 w_shard2) = Some 0 \<and>
     ghostList (fst (snd (twoq_OnAdd w_q 3 w_shard2))) = [''z''] \<and>
     inList (fst (snd (twoq_OnAdd w_q 3 w_shard2))) = [3, 0] \<and>
     dll (snd (snd (twoq_OnAdd w_q 3 w_shard2))) [3, 0]"
    using twoq_OnAdd_admission[where q = w_q and n = 3 and s = w_shard2] w_shard2_dll n(2)
    by (auto simp: case_prod_beta k g)
  show ?thesis using a b w_shard2_dll by simp
qed

text \<open>
  C10. Under the calling discipline of the shard (\<open>disciplined\<close>), after every callback
  of the 2Q policy, and whatever the shard does to its nodes in between, no key is both
  the key of a node tracked in A1in and a key of the ghost queue A1out; the same holds of
  the two indexes.
\<close>

theorem twoq_A1in_ghosts_disjoint:
  assumes "disciplined R q s"
  shows "(\<lambda>a. key (heap s a)) ` set (inList q) \<inter> set (ghostList q) = {}
       \<and> (\<lambda>a. key (heap s a)) ` inIdx q \<inter> ghostIdx q = {}"
  using disciplined_ok[OF assms] by (simp add: twoq_ok_def)

theorem twoq_A1in_ghosts_disjoint_witness:
  "disciplined {} w_twoq (snd (snd (twoq_OnAdd (twoq_New 1 1) 0 w_shard1)))
   \<and> ghostList w_twoq = [''a''] \<and> inList w_twoq = []
   \<and> (\<lambda>a. key (heap (snd (snd (twoq_OnAdd (twoq_New 1 1) 0 w_shard1))) a)) ` set (inList w_twoq)
        \<inter> set (ghostList w_twoq) = {}"
proof -
  let ?q1 = "fst (snd (twoq_OnAdd (twoq_New 1 1 :: string twoQ) 0 w_shard1))"
  let ?s1 = "snd (snd (twoq_OnAdd (twoq_New 1 1 :: string twoQ) 0 w_shard1))"
  have "disciplined {} (twoq_New 1 1 :: string twoQ) w_shard1" by (rule d_new)
  then have "disciplined (insert 0 {}) ?q1 ?s1" by (rule d_add) simp_all
  then have "disciplined (insert 0 {} - {0}) (twoq_OnRemove ?q1 0 ?s1) ?s1" by (rule d_remove) simp
  then have d: "disciplined {} w_twoq ?s1" by (simp add: w_twoq_def)
  from twoq_A1in_ghosts_disjoint[OF d] w_twoq_eval d show ?thesis by simp
qed

section \<open>Claims about the cache\<close>

text \<open>
  The shard invariants hold of every cache that \<^verbatim>\<open>New\<close> builds without wrapping
  \<^verbatim>\<open>Capacity + sh - 1\<close>, after every sequence of public operations: in every shard the
  number of keys of the map is \<open>len\<close>, the costs of the resident nodes add up to \<open>cost\<close>,
  \<open>len \<le> cap\<close>, and \<open>cost \<le> maxCost\<close> when \<open>maxCost > 0\<close> (\<open>cache_invariants\<close> above).
\<close>

text \<open>
  C1. Where the sum wraps the invariant \<open>len \<le> cap\<close> fails.
  \<^verbatim>\<open>New(Options{Capacity: math.MaxInt64, Shards: 2})\<close> returns two shards of capacity
  \<open>- 2^62\<close>: \<open>len = 0\<close> exceeds \<open>cap\<close> from the start, and after \<^verbatim>\<open>Add("a", 7)\<close>, which
  returns true, every shard still has \<open>len = 0\<close> and \<open>cap = - 2^62\<close>.
\<close>

theorem shard_cap_overflow:
  "New w_node 1 w_hash w_big = Inr w_cache_big \<and>
   map cap (shards w_cache_big) = [- 4611686018427387904, - 4611686018427387904] \<and>
   map len (shards w_cache_big) = [0, 0] \<and>
   map_option fst (cache_Add w_cache_big 0 ''a'' 7) = Some True \<and>
   map_option (map len \<circ> shards \<circ> snd) (cache_Add w_cache_big 0 ''a'' 7) = Some [0, 0] \<and>
   map_option (map cap \<circ> shards \<circ> snd) (cache_Add w_cache_big 0 ''a'' 7)
     = Some [- 4611686018427387904, - 4611686018427387904]"
proof -
  have inv: "cache_inv w_cache_big" using w_cache_big_New by (rule New_inv)
  have sh: "shards w_cache_big =
      [newShard w_node 1 (- 4611686018427387904) PolicyLRU w_big,
       newShard w_node 1 (- 4611686018427387904) PolicyLRU w_big]"
    by (simp add: w_cache_big_def numeral_2_eq_2)
  from cache_Add_sum[OF inv, of "''a''" 0 7] obtain i s' a b where
    r: "getShard w_cache_big ''a'' = Some (i, shards w_cache_big ! i)"
       "map_option snd (cache_Add w_cache_big 0 ''a'' 7) =
          Some (w_cache_big\<lparr>shards := (shards w_cache_big)[i := s']\<rparr>)"
       "map_option fst (cache_Add w_cache_big 0 ''a'' 7) =
          Some (\<not> closed w_cache_big \<and> m (shards w_cache_big ! i) ''a'' = None)"
       "shard_inv s'" "tally (shards w_cache_big ! i) s' 0 a b"
    by blast
  have i: "i = 0" using r(1) by (simp add: w_cache_big_fields)
  have c: "cap s' = - 4611686018427387904"
    using r(5) unfolding i by (simp add: tally_def w_cache_big_fields w_big_shard)
  from r(4) obtain xs where "shard_ok s' xs" by (auto simp: shard_inv_def)
  then have "0 \<le> len s'" by (simp add: shard_ok_len)
  then have l: "len s' = 0" using r(4) c by (auto simp: shard_inv_def)
  have A: "map_option fst (cache_Add w_cache_big 0 ''a'' 7) = Some True"
    using r(3) unfolding i by (simp add: w_cache_big_fields w_big_shard)
  obtain res where res: "cache_Add w_cache_big 0 ''a'' 7 = Some res"
    using A by (cases "cache_Add w_cache_big 0 ''a'' 7") auto
  have sn: "snd res = w_cache_big\<lparr>shards := (shards w_cache_big)[0 := s']\<rparr>"
    using r(2) res i by simp
  show ?thesis
    using w_cache_big_New A
    by (simp add: res sn sh w_big_shard l c)
qed

text \<open>
  C3. \<^verbatim>\<open>New(Options{Capacity: 8, Shards: 3, MaxCost: 10})\<close> builds \<open>S = 4\<close> shards. Each
  has capacity \<open>2 = ceil(8 / 4)\<close>, as claimed, and \<open>maxCost = 4\<close>, which is
  \<open>ceil(10 / 3)\<close>: \<^verbatim>\<open>newShard\<close> divides by \<^verbatim>\<open>opt.Shards\<close>, the number asked for, and not
  by the number of shards built; the claim says \<open>ceil(10 / 4) = 3\<close>.
\<close>

theorem maxCost_split_unrounded:
  "New w_node 1 w_hash w_opts3 = Inr w_cache3 \<and>
   shardCount 1 w_opts3 = 4 \<and> length (shards w_cache3) = 4 \<and>
   map cap (shards w_cache3) = [2, 2, 2, 2] \<and>
   (sint (Capacity w_opts3) + 4 - 1) div 4 = 2 \<and>
   map maxCost (shards w_cache3) = [4, 4, 4, 4] \<and>
   (sint (MaxCost w_opts3) + 4 - 1) div 4 = 3"
proof -
  have b: "go_div (Capacity w_opts3 + 4 - 1) 4 = 2"
    by (simp add: go_div_def w_opts3_def)
  have n: "New w_node 1 w_hash w_opts3 = Inr w_cache3"
    unfolding New_def w_shardCount3 Let_def b
    by (simp add: w_opts3_def w_opts_def w_cache3_def word_sle_eq word_sless_alt)
  have r: "replicate 4 x = [x, x, x, x]" for x :: "(string, nat) shard"
    by (simp add: numeral_eq_Suc)
  have m: "maxCost (newShard w_node 1 2 PolicyLRU w_opts3) = 4"
    "cap (newShard w_node 1 2 PolicyLRU w_opts3) = 2"
    by (simp_all add: newShard_def Let_def w_opts3_def w_opts_def go_div_def word_sle_eq word_sless_alt)
  show ?thesis
    using n w_shardCount3 by (simp add: w_cache3_def r m) (simp add: w_opts3_def)
qed

text \<open>
  C6. Eviction accounting, for every cache \<^verbatim>\<open>New\<close> returns, every sequence \<open>ops\<close> of public
  operations and every operation \<open>x\<close> that follows it: the sequence returns, \<open>x\<close> returns,
  and \<open>accounted x c c'\<close> holds of the caches before and after \<open>x\<close>. That is: only the
  shard of the key of \<open>x\<close> changes; the \<open>Evict\<close> events \<open>x\<close> emits there are \<open>t\<close> with
  reason TTL, then \<open>a\<close> with reason Policy, then \<open>b\<close> with reason Capacity; the eviction
  counter grows by \<open>t + a + b\<close>; and, unless \<open>x\<close> is a \<^verbatim>\<open>Remove\<close>, exactly \<open>t + a + b\<close>
  nodes leave the shard (\<open>departed\<close>). \<open>reasons\<close> says which evictions an operation makes.
  \<^verbatim>\<open>Get\<close> makes one TTL eviction when the key is present and expired, and no other.
  \<^verbatim>\<open>Add\<close>, \<^verbatim>\<open>Set\<close> and \<^verbatim>\<open>SetWithTTL\<close> make no TTL eviction; they make one Policy
  eviction exactly when they insert a key and the policy nominates a victim or the shard is
  full, and Capacity evictions only when the cost limit is on and the cost would exceed it.
  \<^verbatim>\<open>GetOrLoad\<close> makes the TTL eviction of its first \<^verbatim>\<open>Get\<close>, and at most one Policy
  eviction and Capacity evictions only when the loader returned a value. \<^verbatim>\<open>Remove\<close> emits
  nothing and leaves the eviction counter alone, also when the key is present: then its
  node is the one node that leaves.
\<close>

theorem evict_accounting:
  fixes c0 :: "('k, 'v, 'e) cache"
  assumes "New z procs hashf opts = Inr c0"
  shows "\<exists>c c'. run ops c0 = Some c \<and> step x c = Some c' \<and> accounted x c c'"
proof -
  from reach_inv[OF assms, of ops] obtain c where c: "run ops c0 = Some c" "cache_inv c" by blast
  from step_accounting[OF c(2), of x] obtain c' where "step x c = Some c'" "accounted x c c'"
    by blast
  with c(1) show ?thesis by blast
qed

theorem evict_accounting_witness:
  "New w_node 1 w_hash w_opts1 = Inr w_cache0 \<and>
   run [OpSet 0 ''a'' 7] w_cache0 = Some w_cache1 \<and>
   (\<exists>c' s' new. step (OpSet 0 ''b'' 8) w_cache1 = Some c' \<and> shards c' = [s'] \<and>
       metrics s' = metrics w_shard_full @ new \<and> filter is_Evict new = [Evict EvictPolicy] \<and>
       evicts s' = evicts w_shard_full + 1 \<and> card (departed w_shard_full s') = 1) \<and>
   (\<exists>c' s'. step (OpRemove ''a'') w_cache1 = Some c' \<and> shards c' = [s'] \<and>
       metrics s' = metrics w_shard_full \<and> evicts s' = evicts w_shard_full \<and>
       m s' ''a'' = None \<and> departed w_shard_full s' = {0})"
proof -
  have f: "\<not> closed w_cache1" "shards w_cache1 = [w_shard_full]"
    by (simp_all add: w_cache1_def w_cache0_def)
  have g: "m w_shard_full ''b'' = None" "m w_shard_full ''a'' = Some 0" "cap w_shard_full = 1"
    "len w_shard_full = 1" "maxCost w_shard_full = 0"
    by (simp_all add: w_shard_full_def w_shard1_def)
  have A: "\<exists>c' s' new. step (OpSet 0 ''b'' 8) w_cache1 = Some c' \<and> shards c' = [s'] \<and>
       metrics s' = metrics w_shard_full @ new \<and> filter is_Evict new = [Evict EvictPolicy] \<and>
       evicts s' = evicts w_shard_full + 1 \<and> card (departed w_shard_full s') = 1"
  proof -
    from evict_accounting[OF w_cache0_New, of "[OpSet 0 ''a'' 7]" "OpSet 0 ''b'' 8"]
    obtain c' where c': "step (OpSet 0 ''b'' 8) w_cache1 = Some c'"
      "accounted (OpSet 0 ''b'' 8) w_cache1 c'"
      unfolding w_cache1_run by auto
    from c'(2) obtain s' new t a b where
      r: "shards c' = [s']" "metrics s' = metrics w_shard_full @ new"
         "filter is_Evict new =
               replicate t (Evict EvictTTL) @ replicate a (Evict EvictPolicy) @
               replicate b (Evict EvictCapacity)"
         "evicts s' = evicts w_shard_full + (t + a + b)"
         "reasons (OpSet 0 ''b'' 8) w_cache1 w_shard_full t a b"
         "card (departed w_shard_full s') = t + a + b"
      unfolding accounted_def by (auto simp: w_getShard1 f)
    have "t = 0" "a = 1" "b = 0" using r(5) f g by auto
    with c'(1) r show ?thesis by auto
  qed
  have B: "\<exists>c' s'. step (OpRemove ''a'') w_cache1 = Some c' \<and> shards c' = [s'] \<and>
       metrics s' = metrics w_shard_full \<and> evicts s' = evicts w_shard_full \<and>
       m s' ''a'' = None \<and> departed w_shard_full s' = {0}"
  proof -
    from evict_accounting[OF w_cache0_New, of "[OpSet 0 ''a'' 7]" "OpRemove ''a''"]
    obtain c' where c': "step (OpRemove ''a'') w_cache1 = Some c'"
      "accounted (OpRemove ''a'') w_cache1 c'"
      unfolding w_cache1_run by auto
    from c'(2) obtain s' where
      r: "shards c' = [s']" "metrics s' = metrics w_shard_full"
         "evicts s' = evicts w_shard_full"
         "m s' ''a'' = None" "departed w_shard_full s' = {0}"
      unfolding accounted_def by (auto simp: w_getShard1 f g)
    with c'(1) show ?thesis by auto
  qed
  show ?thesis using w_cache0_New w_cache1_run A B by (intro conjI)
qed

text \<open>
  C7. \<^verbatim>\<open>Add(k, v1); Add(k, v2)\<close>, on a cache \<^verbatim>\<open>New\<close> returned and public operations
  brought to \<open>c\<close>. When the first \<^verbatim>\<open>Add\<close> returns true, the shard of \<open>k\<close> has capacity at
  least 1, and the cost limit of that shard is off or the cost of \<open>v1\<close> is within it, the
  second \<^verbatim>\<open>Add\<close> returns false, changes nothing, and the value stored for \<open>k\<close> is
  \<open>v1\<close>. Without the condition on the cost the claim fails: an
  entry that costs more than \<open>maxCost\<close> is evicted by the \<^verbatim>\<open>Add\<close> that inserts it, so the
  second \<^verbatim>\<open>Add\<close> inserts again and returns true.
\<close>

theorem Add_twice:
  fixes c0 :: "('k, 'v, 'e) cache"
  assumes n: "New z procs hashf opts = Inr c0" and run: "run ops c0 = Some c"
    and g: "getShard c k = Some (i, s)" and cp: "1 \<le> cap s"
    and mc: "0 < maxCost s \<longrightarrow> sint (costOf c v1) \<le> maxCost s"
    and add: "cache_Add c now k v1 = Some (True, c1)"
  shows "cache_Add c1 now' k v2 = Some (False, c1) \<and> stored c1 k = Some v1"
proof -
  from reach_inv[OF n, of ops] run have inv: "cache_inv c" by auto
  from cache_Add_sum[OF inv, of k now v1] obtain i' s' a b where
    r0: "getShard c k = Some (i', shards c ! i') \<and> i' < length (shards c) \<and>
           map_option snd (cache_Add c now k v1) = Some (c\<lparr>shards := (shards c)[i' := s']\<rparr>) \<and>
           map_option fst (cache_Add c now k v1) = Some (\<not> closed c \<and> m (shards c ! i') k = None) \<and>
           shard_inv s' \<and> tally (shards c ! i') s' 0 a b \<and>
           a = (if \<not> closed c \<and> m (shards c ! i') k = None \<and>
                   (nominates (pol (shards c ! i')) k \<or> cap (shards c ! i') \<le> len (shards c ! i'))
                then 1 else 0) \<and>
           (0 < b \<longrightarrow> \<not> closed c \<and> m (shards c ! i') k = None \<and> 0 < maxCost (shards c ! i') \<and>
                       maxCost (shards c ! i') < cost (shards c ! i') + sint (costOf c v1)) \<and>
           (\<not> closed c \<and> m (shards c ! i') k = None \<and> 1 \<le> cap (shards c ! i') \<and>
            (0 < maxCost (shards c ! i') \<longrightarrow> sint (costOf c v1) \<le> maxCost (shards c ! i')) \<longrightarrow>
              m s' k = Some (fresh (shards c ! i')) \<and> val (heap s' (fresh (shards c ! i'))) = v1) \<and>
           (\<not> closed c \<and> m (shards c ! i') k = None \<and> 0 < maxCost (shards c ! i') \<and>
            maxCost (shards c ! i') < sint (costOf c v1) \<longrightarrow> m s' = Map.empty)"
    by (elim exE) (rule that)
  have ii: "i' = i" "s = shards c ! i" using r0 g by simp_all
  have r: "i < length (shards c)" "s = shards c ! i"
       "map_option snd (cache_Add c now k v1) = Some (c\<lparr>shards := (shards c)[i := s']\<rparr>)"
       "map_option fst (cache_Add c now k v1) = Some (\<not> closed c \<and> m s k = None)"
       "\<not> closed c \<and> m s k = None \<and> 1 \<le> cap s \<and>
            (0 < maxCost s \<longrightarrow> sint (costOf c v1) \<le> maxCost s) \<longrightarrow>
              m s' k = Some (fresh s) \<and> val (heap s' (fresh s)) = v1"
    using r0 unfolding ii(1) ii(2)[symmetric] by simp_all
  have c1: "c1 = c\<lparr>shards := (shards c)[i := s']\<rparr>" using r(3) add by simp
  have ok: "\<not> closed c" "m s k = None" using r(4) add by auto
  have st: "m s' k = Some (fresh s)" "val (heap s' (fresh s)) = v1"
    using r(5) ok cp mc by simp_all
  have g1: "getShard c1 k = Some (i, s')"
    unfolding c1 using g r(1) by (rule getShard_upd)
  have cl: "\<not> closed c1" using ok(1) by (simp add: c1)
  have id: "c1\<lparr>shards := (shards c1)[i := s']\<rparr> = c1" by (simp add: c1)
  have "cache_Add c1 now' k v2 = Some (False, c1)"
    using cl g1 st(1) id by (simp add: cache_Add_def Add_def)
  moreover have "stored c1 k = Some v1" using g1 st by (simp add: stored_def)
  ultimately show ?thesis by simp
qed

theorem Add_twice_oversized:
  "New w_node 1 w_hash w_opts7 = Inr w_cache7 \<and>
   cache_Add w_cache7 0 ''a'' 11 = Some (True, w_cache7a) \<and>
   stored w_cache7a ''a'' = None \<and>
   map_option fst (cache_Add w_cache7a 0 ''a'' 12) = Some True"
proof -
  have inv: "cache_inv w_cache7" using w_cache7_New by (rule New_inv)
  from cache_Add_sum[OF inv, of "''a''" 0 11] obtain i' s' a b where
    r0: "getShard w_cache7 ''a'' = Some (i', shards w_cache7 ! i') \<and> i' < length (shards w_cache7) \<and>
           map_option snd (cache_Add w_cache7 0 ''a'' 11) = Some (w_cache7\<lparr>shards := (shards w_cache7)[i' := s']\<rparr>) \<and>
           map_option fst (cache_Add w_cache7 0 ''a'' 11) = Some (\<not> closed w_cache7 \<and> m (shards w_cache7 ! i') ''a'' = None) \<and>
           shard_inv s' \<and> tally (shards w_cache7 ! i') s' 0 a b \<and>
           a = (if \<not> closed w_cache7 \<and> m (shards w_cache7 ! i') ''a'' = None \<and>
                   (nominates (pol (shards w_cache7 ! i')) ''a'' \<or> cap (shards w_cache7 ! i') \<le> len (shards w_cache7 ! i'))
                then 1 else 0) \<and>
           (0 < b \<longrightarrow> \<not> closed w_cache7 \<and> m (shards w_cache7 ! i') ''a'' = None \<and> 0 < maxCost (shards w_cache7 ! i') \<and>
                       maxCost (shards w_cache7 ! i') < cost (shards w_cache7 ! i') + sint (costOf w_cache7 11)) \<and>
           (\<not> closed w_cache7 \<and> m (shards w_cache7 ! i') ''a'' = None \<and> 1 \<le> cap (shards w_cache7 ! i') \<and>
            (0 < maxCost (shards w_cache7 ! i') \<longrightarrow> sint (costOf w_cache7 11) \<le> maxCost (shards w_cache7 ! i')) \<longrightarrow>
              m s' ''a'' = Some (fresh (shards w_cache7 ! i')) \<and> val (heap s' (fresh (shards w_cache7 ! i'))) = 11) \<and>
           (\<not> closed w_cache7 \<and> m (shards w_cache7 ! i') ''a'' = None \<and> 0 < maxCost (shards w_cache7 ! i') \<and>
            maxCost (shards w_cache7 ! i') < sint (costOf w_cache7 11) \<longrightarrow> m s' = Map.empty)"
    by (elim exE) (rule that)
  have ii: "i' = 0" using r0 by (simp add: w_cache7_fields)
  have r: "map_option snd (cache_Add w_cache7 0 ''a'' 11) =
          Some (w_cache7\<lparr>shards := (shards w_cache7)[0 := s']\<rparr>)"
       "map_option fst (cache_Add w_cache7 0 ''a'' 11) = Some True"
       "shard_inv s'" "m s' = Map.empty"
    using r0 unfolding ii by (simp_all add: w_cache7_fields)
  have e: "cache_Add w_cache7 0 ''a'' 11 = Some (True, w_cache7\<lparr>shards := (shards w_cache7)[0 := s']\<rparr>)"
    using r(1,2) by (cases "cache_Add w_cache7 0 ''a'' 11") auto
  have a: "w_cache7a = w_cache7\<lparr>shards := (shards w_cache7)[0 := s']\<rparr>"
    by (simp add: w_cache7a_def e)
  have inv': "cache_inv w_cache7a" unfolding a using inv r(3) by (rule cache_inv_upd)
  have l7: "0 < length (shards w_cache7)" by (simp add: w_cache7_def)
  have g: "getShard w_cache7a k = Some (0, s')" for k
    unfolding a using w_cache7_fields(3) l7 by (rule getShard_upd)
  have cl: "\<not> closed w_cache7a" by (simp add: a w_cache7_fields)
  from cache_Add_sum[OF inv', of "''a''" 0 12] obtain j' s'' a' b' where
    q0: "getShard w_cache7a ''a'' = Some (j', shards w_cache7a ! j') \<and> j' < length (shards w_cache7a) \<and>
         map_option snd (cache_Add w_cache7a 0 ''a'' 12) =
           Some (w_cache7a\<lparr>shards := (shards w_cache7a)[j' := s'']\<rparr>) \<and>
         map_option fst (cache_Add w_cache7a 0 ''a'' 12) =
           Some (\<not> closed w_cache7a \<and> m (shards w_cache7a ! j') ''a'' = None)"
    by blast
  have "shards w_cache7a ! j' = s'" using q0 g[of "''a''"] by simp
  then have "map_option fst (cache_Add w_cache7a 0 ''a'' 12) = Some True"
    using q0 cl r(4) by simp
  moreover have "stored w_cache7a ''a'' = None" using g r(4) by (simp add: stored_def)
  ultimately show ?thesis using w_cache7_New e a by simp
qed

theorem Add_twice_witness:
  "New w_node 1 w_hash w_opts7 = Inr w_cache7 \<and> run [] w_cache7 = Some w_cache7 \<and>
   getShard w_cache7 ''a'' = Some (0, newShard w_node 1 1 PolicyLRU w_opts7) \<and>
   map_option fst (cache_Add w_cache7 0 ''a'' 5) = Some True \<and>
   map_option fst (cache_Add (snd (the (cache_Add w_cache7 0 ''a'' 5))) 0 ''a'' 6) = Some False \<and>
   stored (snd (the (cache_Add w_cache7 0 ''a'' 5))) ''a'' = Some 5"
proof -
  have inv: "cache_inv w_cache7" using w_cache7_New by (rule New_inv)
  from cache_Add_sum[OF inv, of "''a''" 0 5] obtain i' s' where
    q0: "getShard w_cache7 ''a'' = Some (i', shards w_cache7 ! i') \<and> i' < length (shards w_cache7) \<and>
         map_option snd (cache_Add w_cache7 0 ''a'' 5) =
           Some (w_cache7\<lparr>shards := (shards w_cache7)[i' := s']\<rparr>) \<and>
         map_option fst (cache_Add w_cache7 0 ''a'' 5) =
           Some (\<not> closed w_cache7 \<and> m (shards w_cache7 ! i') ''a'' = None)"
    by blast
  have "i' = 0" using q0 by (simp add: w_cache7_fields)
  then have f: "map_option fst (cache_Add w_cache7 0 ''a'' 5) = Some True"
    using q0 by (simp add: w_cache7_fields)
  then obtain c1 where e: "cache_Add w_cache7 0 ''a'' 5 = Some (True, c1)"
    by (cases "cache_Add w_cache7 0 ''a'' 5") auto
  have r: "run [] w_cache7 = Some w_cache7" by simp
  have cp: "1 \<le> cap (newShard w_node 1 1 PolicyLRU w_opts7 :: (string, nat) shard)"
    by (simp add: w_cache7_fields)
  have mc: "0 < maxCost (newShard w_node 1 1 PolicyLRU w_opts7 :: (string, nat) shard) \<longrightarrow>
     sint (costOf w_cache7 5) \<le> maxCost (newShard w_node 1 1 PolicyLRU w_opts7 :: (string, nat) shard)"
    by (simp add: w_cache7_fields)
  from Add_twice[OF w_cache7_New r w_cache7_fields(3) cp mc e, of 0 6]
  show ?thesis using w_cache7_New f e by (simp add: w_cache7_fields)
qed

text \<open>
  C8. \<^verbatim>\<open>GetOrLoad(ctx, k)\<close> whose first \<^verbatim>\<open>Get\<close> misses, on a cache \<^verbatim>\<open>New\<close> returned and
  public operations brought to \<open>c\<close>. With no loader it returns \<^verbatim>\<open>ErrNoLoader\<close>, and the
  cache is as the \<^verbatim>\<open>Get\<close> left it. With a loader that returns the error \<open>e\<close> it returns
  \<open>e\<close> itself; the second \<^verbatim>\<open>Get\<close> misses too, the cache is as the two \<^verbatim>\<open>Get\<close>s left
  it, and nothing is stored for \<open>k\<close> (on a closed cache, which ignores every operation,
  what was stored for \<open>k\<close> is still stored).
\<close>

theorem GetOrLoad_errors:
  fixes c0 :: "('k, 'v, 'e) cache"
  assumes n: "New z procs hashf opts = Inr c0" and run: "run ops c0 = Some c"
    and miss: "map_option fst (cache_Get c t1 k) = Some None"
  shows "\<exists>c1. cache_Get c t1 k = Some (None, c1) \<and>
           (Loader (opt c) = None \<longrightarrow>
              GetOrLoad c ctx t1 t2 t3 k = Some (Inl ErrNoLoader, c1)) \<and>
           (\<forall>load e. Loader (opt c) = Some load \<and> load ctx k = Inl e \<longrightarrow>
              (\<exists>c'. cache_Get c1 t2 k = Some (None, c') \<and>
                    GetOrLoad c ctx t1 t2 t3 k = Some (Inl e, c') \<and>
                    stored c' k = (if closed c then stored c k else None)))"
proof -
  from reach_inv[OF n, of ops] run have inv: "cache_inv c" by auto
  have sf0: "sf c = {}" using inv by (simp add: cache_inv_def)
  from cache_Get_sum[OF inv, of k t1] obtain i s1 r1 where
    g0: "getShard c k = Some (i, shards c ! i) \<and> i < length (shards c) \<and>
           cache_Get c t1 k = Some (r1, c\<lparr>shards := (shards c)[i := s1]\<rparr>) \<and>
           shard_inv s1 \<and>
           tally (shards c ! i) s1
             (if \<not> closed c \<and> expired_in (shards c ! i) k (sint t1) then 1 else 0) 0 0 \<and>
           (r1 = None \<longrightarrow> closed c \<or> m s1 k = None) \<and>
           (closed c \<or> m (shards c ! i) k = None \<longrightarrow> r1 = None)"
    by (elim exE) (rule that)
  have g1: "getShard c k = Some (i, shards c ! i)" "i < length (shards c)"
        "cache_Get c t1 k = Some (r1, c\<lparr>shards := (shards c)[i := s1]\<rparr>)"
        "shard_inv s1"
        "r1 = None \<longrightarrow> closed c \<or> m s1 k = None"
    using g0 by simp_all
  have r1: "r1 = None" using g1(3) miss by simp
  define c1 where "c1 = c\<lparr>shards := (shards c)[i := s1]\<rparr>"
  have e1: "cache_Get c t1 k = Some (None, c1)" using g1(3) r1 by (simp add: c1_def)
  have inv1: "cache_inv c1" unfolding c1_def using inv g1(4) by (rule cache_inv_upd)
  have f1: "closed c1 = closed c" "opt c1 = opt c" "sf c1 = {}" "shards c1 ! i = s1"
    using sf0 g1(2) by (simp_all add: c1_def)
  have gs1: "getShard c1 k = Some (i, s1)" unfolding c1_def using g1(1,2) by (rule getShard_upd)
  have A: "Loader (opt c) = None \<longrightarrow> GetOrLoad c ctx t1 t2 t3 k = Some (Inl ErrNoLoader, c1)"
    using e1 f1(2) by (simp add: GetOrLoad_def)
  have B: "\<exists>c'. cache_Get c1 t2 k = Some (None, c') \<and>
                    GetOrLoad c ctx t1 t2 t3 k = Some (Inl e, c') \<and>
                    stored c' k = (if closed c then stored c k else None)"
    if L: "Loader (opt c) = Some load" "load ctx k = Inl e" for load e
  proof -
    from cache_Get_sum[OF inv1, of k t2] obtain j s2 r2 where
      g2: "getShard c1 k = Some (j, shards c1 ! j) \<and> j < length (shards c1) \<and>
           cache_Get c1 t2 k = Some (r2, c1\<lparr>shards := (shards c1)[j := s2]\<rparr>) \<and>
           shard_inv s2 \<and>
           tally (shards c1 ! j) s2
             (if \<not> closed c1 \<and> expired_in (shards c1 ! j) k (sint t2) then 1 else 0) 0 0 \<and>
           (r2 = None \<longrightarrow> closed c1 \<or> m s2 k = None) \<and>
           (closed c1 \<or> m (shards c1 ! j) k = None \<longrightarrow> r2 = None)"
      by (elim exE) (rule that)
    have j: "j = i" using g2 gs1 by simp
    have r2: "r2 = None" using g2 g1(5) r1 f1 unfolding j by simp
    define c3 where "c3 = c1\<lparr>shards := (shards c1)[i := s2]\<rparr>"
    have e2: "cache_Get c1 t2 k = Some (None, c3)" using g2 r2 unfolding j by (simp add: c3_def)
    have f3: "sf c3 = {}" "closed c3 = closed c" using f1 by (simp_all add: c3_def)
    have gs3: "getShard c3 k = Some (i, s2)"
      unfolding c3_def using gs1 by (rule getShard_upd) (simp add: c1_def g1(2))
    have b: "cache_Get (c1\<lparr>sf := {k}\<rparr>) t2 k = Some (None, c3\<lparr>sf := {k}\<rparr>)"
      unfolding cache_Get_sf using e2 by simp
    have G: "GetOrLoad c ctx t1 t2 t3 k = Some (Inl e, c3)"
      using e1 L f1(2,3) b f3(1) by (simp add: GetOrLoad_def Do_def)
    have S: "stored c3 k = (if closed c then stored c k else None)"
    proof (cases "closed c")
      case True
      then have "cache_Get c t1 k = Some (None, c)" by (simp add: cache_Get_def)
      with e1 have "c1 = c" by simp
      moreover from True f1(1) have "cache_Get c1 t2 k = Some (None, c1)" by (simp add: cache_Get_def)
      with e2 have "c3 = c1" by simp
      ultimately show ?thesis using True by simp
    next
      case False
      then have "m s2 k = None" using g2 r2 f1(1) by simp
      then show ?thesis using False gs3 by (simp add: stored_def)
    qed
    show ?thesis using e2 G S by blast
  qed
  have B': "\<forall>load e. Loader (opt c) = Some load \<and> load ctx k = Inl e \<longrightarrow>
              (\<exists>c'. cache_Get c1 t2 k = Some (None, c') \<and>
                    GetOrLoad c ctx t1 t2 t3 k = Some (Inl e, c') \<and>
                    stored c' k = (if closed c then stored c k else None))"
  proof (intro allI impI)
    fix load e assume "Loader (opt c) = Some load \<and> load ctx k = Inl e"
    then show "\<exists>c'. cache_Get c1 t2 k = Some (None, c') \<and>
                    GetOrLoad c ctx t1 t2 t3 k = Some (Inl e, c') \<and>
                    stored c' k = (if closed c then stored c k else None)"
      using B[of load e] by simp
  qed
  show ?thesis by (rule exI[of _ c1]) (intro conjI e1 A B')
qed

theorem GetOrLoad_errors_witness:
  "New w_node 1 w_hash w_opts1 = Inr w_cache0 \<and>
   run [OpSet 0 ''a'' 7] w_cache0 = Some w_cache1 \<and>
   map_option fst (cache_Get w_cache1 11 ''a'') = Some None \<and>
   map_option fst (GetOrLoad w_cache1 None 11 11 11 ''a'') = Some (Inl ErrNoLoader) \<and>
   New w_node 1 w_hash w_opts8 = Inr w_cache8 \<and>
   run [] w_cache8 = Some w_cache8 \<and>
   map_option fst (cache_Get w_cache8 0 ''a'') = Some None \<and>
   map_option fst (GetOrLoad w_cache8 None 0 0 0 ''a'') = Some (Inl (Err ())) \<and>
   stored (snd (the (GetOrLoad w_cache8 None 0 0 0 ''a''))) ''a'' = None"
proof -
  have l1: "Loader (opt w_cache1) = None"
    by (simp add: w_cache1_def w_cache0_def w_opts1_def w_opts_def)
  have l8: "Loader (opt w_cache8) = Some w_fail" "w_fail None ''a'' = Inl (Err ())"
    "\<not> closed w_cache8"
    by (simp_all add: w_cache8_def w_opts8_def w_fail_def w_cache0_def)
  have r8: "run [] w_cache8 = Some w_cache8" by simp
  from GetOrLoad_errors[OF w_cache0_New w_cache1_run w_cache1_miss, of None 11 11] l1
  have A: "map_option fst (GetOrLoad w_cache1 None 11 11 11 ''a'') = Some (Inl ErrNoLoader)"
    by auto
  from GetOrLoad_errors[OF w_cache8_New r8 w_cache8_miss, of None 0 0] l8
  have B: "map_option fst (GetOrLoad w_cache8 None 0 0 0 ''a'') = Some (Inl (Err ())) \<and>
   stored (snd (the (GetOrLoad w_cache8 None 0 0 0 ''a''))) ''a'' = None"
    by auto
  show ?thesis
    using w_cache0_New w_cache1_run w_cache1_miss A w_cache8_New r8 w_cache8_miss B
    by (intro conjI) simp_all
qed

end
